theory Spec2Isabelle
  imports Main
begin

section \<open>Cacheable remote resources (rex-graphql/Resource.js)\<close>

subsection \<open>Fetch parameters and the cache key\<close>

text \<open>
  Fetch parameters are JavaScript values that \<^verbatim>\<open>JSON.stringify\<close> can print: the model
  keeps \<^verbatim>\<open>undefined\<close>, \<^verbatim>\<open>null\<close>, booleans, integral numbers (safe integers, printed in
  decimal), strings, arrays and plain objects. An object is the list of its own
  enumerable properties in the order \<^verbatim>\<open>JSON.stringify\<close> visits them, which for keys
  that are not array indices is the order in which they were inserted.
\<close>

datatype json =
    JUndefined
  | JNull
  | JBool bool
  | JNum int
  | JStr string
  | JArr "json list"
  | JObj "(string \<times> json) list"

text \<open>JavaScript truthiness, as used by \<^verbatim>\<open>params || {}\<close>.\<close>

fun truthy :: "json \<Rightarrow> bool" where
  "truthy JUndefined = False"
| "truthy JNull = False"
| "truthy (JBool b) = b"
| "truthy (JNum n) = (n \<noteq> 0)"
| "truthy (JStr s) = (s \<noteq> [])"
| "truthy (JArr xs) = True"
| "truthy (JObj kvs) = True"

definition orEmptyObject :: "json \<Rightarrow> json" where
  "orEmptyObject params = (if truthy params then params else JObj [])"

definition hexDigit :: "nat \<Rightarrow> char" where
  "hexDigit n = (''0123456789abcdef'') ! (n mod 16)"

text \<open>
  \<^verbatim>\<open>QuoteJSONString\<close>: the two-character escapes, \<^verbatim>\<open>\u00XX\<close> for the other control
  characters, every other character as it is.
\<close>

definition quoteChar :: "char \<Rightarrow> string" where
  "quoteChar c =
     (if c = CHR 0x08 then [CHR 0x5C, CHR ''b'']
      else if c = CHR 0x09 then [CHR 0x5C, CHR ''t'']
      else if c = CHR 0x0A then [CHR 0x5C, CHR ''n'']
      else if c = CHR 0x0C then [CHR 0x5C, CHR ''f'']
      else if c = CHR 0x0D then [CHR 0x5C, CHR ''r'']
      else if c = CHR 0x22 then [CHR 0x5C, CHR 0x22]
      else if c = CHR 0x5C then [CHR 0x5C, CHR 0x5C]
      else if (of_char c :: nat) < 32
        then [CHR 0x5C, CHR ''u'', CHR ''0'', CHR ''0'',
              hexDigit (of_char c div 16), hexDigit (of_char c)]
      else [c])"

definition quoteJSONString :: "string \<Rightarrow> string" where
  "quoteJSONString s = [CHR 0x22] @ concat (map quoteChar s) @ [CHR 0x22]"

fun natToString :: "nat \<Rightarrow> string" where
  "natToString n =
     (if n < 10 then [hexDigit n] else natToString (n div 10) @ [hexDigit (n mod 10)])"

definition numberToString :: "int \<Rightarrow> string" where
  "numberToString i = (if i < 0 then CHR ''-'' # natToString (nat (- i)) else natToString (nat i))"

fun joinWith :: "string \<Rightarrow> string list \<Rightarrow> string" where
  "joinWith sep [] = []"
| "joinWith sep [x] = x"
| "joinWith sep (x # y # ys) = x @ sep @ joinWith sep (y # ys)"

text \<open>
  \<^verbatim>\<open>SerializeJSONProperty\<close>: \<open>None\<close> is the result \<^verbatim>\<open>undefined\<close>. An undefined array
  element prints as \<^verbatim>\<open>null\<close>; an undefined property is left out.
\<close>

fun serializeJSONProperty :: "json \<Rightarrow> string option"
  and serializeJSONArray :: "json list \<Rightarrow> string list"
  and serializeJSONObject :: "(string \<times> json) list \<Rightarrow> string list" where
  "serializeJSONProperty JUndefined = None"
| "serializeJSONProperty JNull = Some ''null''"
| "serializeJSONProperty (JBool b) = Some (if b then ''true'' else ''false'')"
| "serializeJSONProperty (JNum n) = Some (numberToString n)"
| "serializeJSONProperty (JStr s) = Some (quoteJSONString s)"
| "serializeJSONProperty (JArr xs) =
     Some (''['' @ joinWith '','' (serializeJSONArray xs) @ '']'')"
| "serializeJSONProperty (JObj kvs) =
     Some (''{'' @ joinWith '','' (serializeJSONObject kvs) @ ''}'')"
| "serializeJSONArray [] = []"
| "serializeJSONArray (x # xs) =
     (case serializeJSONProperty x of None \<Rightarrow> ''null'' | Some s \<Rightarrow> s) # serializeJSONArray xs"
| "serializeJSONObject [] = []"
| "serializeJSONObject ((k, v) # kvs) =
     (case serializeJSONProperty v of
        None \<Rightarrow> serializeJSONObject kvs
      | Some s \<Rightarrow> (quoteJSONString k @ '':'' @ s) # serializeJSONObject kvs)"

text \<open>
  \<^verbatim>\<open>let key = JSON.stringify(params || {}); invariant(typeof key === "string", ...)\<close>:
  \<open>None\<close> is the case in which the invariant would fail.
\<close>

definition cacheKey :: "json \<Rightarrow> string option" where
  "cacheKey params = serializeJSONProperty (orEmptyObject params)"

subsection \<open>Resources, the registry and the world\<close>

type_synonym rid = nat
type_synonym handle = nat
type_synonym listener = nat

datatype ('v, 'e) resourceState =
    Init
  | InProgress handle
  | Completed 'v
  | Error 'e

datatype cachePolicy = Regular | NoClear

text \<open>
  A resource: \<open>cachePolicy\<close> is \<^verbatim>\<open>config.cachePolicy\<close> (\<open>None\<close> when the option is left
  out), \<open>cache\<close> the \<^verbatim>\<open>Map\<close> from key to state, \<open>subcriptions\<close> the \<^verbatim>\<open>Set\<close> of
  listeners in insertion order. \<^verbatim>\<open>config.fetch\<close> is the environment's: a call of it is
  recorded in the world's \<open>fetchCalls\<close>, and the promise it returns (as its type says it
  does) settles by the event \<open>settle\<close>.
\<close>

record ('v, 'e) resource =
  cachePolicy :: "cachePolicy option"
  cache :: "string \<rightharpoonup> ('v, 'e) resourceState"
  subcriptions :: "listener list"

text \<open>
  The callbacks attached to the promise of a fetch: those of a read write the key's state
  into the resource's cache, that of \<^verbatim>\<open>perform\<close> clears all caches.
\<close>

datatype continuation = ReadCont rid string | PerformCont

text \<open>
  The world: the module's \<^verbatim>\<open>resourceRegistry\<close> (a resource is named by its index there),
  the promises not yet settled with their callbacks, the next fresh handle, the log of
  calls of \<^verbatim>\<open>config.fetch\<close> and the log of calls of listeners.
\<close>

record ('v, 'e) world =
  resourceRegistry :: "('v, 'e) resource list"
  pending :: "handle \<rightharpoonup> continuation"
  nextHandle :: handle
  fetchCalls :: "(rid \<times> json) list"
  notifications :: "(rid \<times> listener) list"

definition initialWorld :: "('v, 'e) world" where
  "initialWorld =
     \<lparr>resourceRegistry = [], pending = Map.empty, nextHandle = 0,
      fetchCalls = [], notifications = []\<rparr>"

definition defineResource :: "cachePolicy option \<Rightarrow> ('v, 'e) world \<Rightarrow> rid \<times> ('v, 'e) world" where
  "defineResource policy w =
     (length (resourceRegistry w),
      w\<lparr>resourceRegistry := resourceRegistry w @
          [\<lparr>cachePolicy = policy, cache = Map.empty, subcriptions = []\<rparr>]\<rparr>)"

definition cacheSet ::
  "rid \<Rightarrow> string \<Rightarrow> ('v, 'e) resourceState \<Rightarrow> ('v, 'e) world \<Rightarrow> ('v, 'e) world" where
  "cacheSet r key st w =
     w\<lparr>resourceRegistry := (resourceRegistry w)
         [r := (resourceRegistry w ! r)\<lparr>cache := (cache (resourceRegistry w ! r))(key \<mapsto> st)\<rparr>]\<rparr>"

definition cacheGet :: "('v, 'e) world \<Rightarrow> rid \<Rightarrow> string \<Rightarrow> ('v, 'e) resourceState" where
  "cacheGet w r key =
     (case cache (resourceRegistry w ! r) key of None \<Rightarrow> Init | Some st \<Rightarrow> st)"

text \<open>\<^verbatim>\<open>resourceState(resource, params)\<close>.\<close>

definition resourceState :: "('v, 'e) world \<Rightarrow> rid \<Rightarrow> json \<Rightarrow> ('v, 'e) resourceState option" where
  "resourceState w r params =
     (case cacheKey params of None \<Rightarrow> None | Some key \<Rightarrow> Some (cacheGet w r key))"

text \<open>What a read does: return the value, throw the pending promise, or throw an error.\<close>

datatype ('v, 'e) outcome =
    Returns 'v
  | ThrowsPromise handle
  | ThrowsError 'e
  | ThrowsInvariant

text \<open>
  A call of \<^verbatim>\<open>resource.config.fetch(params)\<close> with callbacks attached by \<^verbatim>\<open>then\<close>: the
  call is logged and a fresh handle stands for the promise that \<^verbatim>\<open>then\<close> returns.
\<close>

definition startFetch ::
  "rid \<Rightarrow> json \<Rightarrow> continuation \<Rightarrow> ('v, 'e) world \<Rightarrow> handle \<times> ('v, 'e) world" where
  "startFetch r params k w =
     (nextHandle w,
      w\<lparr>fetchCalls := fetchCalls w @ [(r, params)],
        pending := (pending w)(nextHandle w \<mapsto> k),
        nextHandle := Suc (nextHandle w)\<rparr>)"

text \<open>
  \<^verbatim>\<open>unstable_useResource_impl(resource, params, resource.cache)\<close>, up to the value it
  returns or throws. The effect that follows a returned value (adding the component's
  listener to \<^verbatim>\<open>resource.subcriptions\<close>) runs after the render and is the event
  \<open>subscribe\<close>.
\<close>

definition unstable_useResource ::
  "('v, 'e) world \<Rightarrow> rid \<Rightarrow> json \<Rightarrow> ('v, 'e) outcome \<times> ('v, 'e) world" where
  "unstable_useResource w r params =
     (case cacheKey params of
        None \<Rightarrow> (ThrowsInvariant, w)
      | Some key \<Rightarrow>
          (case cacheGet w r key of
             Init \<Rightarrow>
               (let (h, w') = startFetch r params (ReadCont r key) w
                in (ThrowsPromise h, cacheSet r key (InProgress h) w'))
           | InProgress h \<Rightarrow> (ThrowsPromise h, w)
           | Completed v \<Rightarrow> (Returns v, w)
           | Error e \<Rightarrow> (ThrowsError e, w)))"

definition subscribe :: "rid \<Rightarrow> listener \<Rightarrow> ('v, 'e) world \<Rightarrow> ('v, 'e) world" where
  "subscribe r l w =
     w\<lparr>resourceRegistry := (resourceRegistry w)
         [r := (resourceRegistry w ! r)\<lparr>subcriptions :=
            (if l \<in> set (subcriptions (resourceRegistry w ! r))
             then subcriptions (resourceRegistry w ! r)
             else subcriptions (resourceRegistry w ! r) @ [l])\<rparr>]\<rparr>"

definition unsubscribe :: "rid \<Rightarrow> listener \<Rightarrow> ('v, 'e) world \<Rightarrow> ('v, 'e) world" where
  "unsubscribe r l w =
     w\<lparr>resourceRegistry := (resourceRegistry w)
         [r := (resourceRegistry w ! r)\<lparr>subcriptions :=
            removeAll l (subcriptions (resourceRegistry w ! r))\<rparr>]\<rparr>"

text \<open>
  The loop of \<^verbatim>\<open>clearAllCaches\<close> over the registry, from index \<open>i\<close>: the resources after
  the loop and the listeners called, in order.
\<close>

fun clearFrom ::
  "rid \<Rightarrow> ('v, 'e) resource list \<Rightarrow> ('v, 'e) resource list \<times> (rid \<times> listener) list" where
  "clearFrom i [] = ([], [])"
| "clearFrom i (resource # rest) =
     (let (rest', called) = clearFrom (Suc i) rest
      in if cachePolicy resource = Some NoClear then (resource # rest', called)
         else (resource\<lparr>cache := Map.empty\<rparr> # rest',
               map (Pair i) (subcriptions resource) @ called))"

definition clearAllCaches :: "('v, 'e) world \<Rightarrow> ('v, 'e) world" where
  "clearAllCaches w =
     (let (registry', called) = clearFrom 0 (resourceRegistry w)
      in w\<lparr>resourceRegistry := registry', notifications := notifications w @ called\<rparr>)"

text \<open>
  \<^verbatim>\<open>perform(mutation, params)\<close>: \<^verbatim>\<open>fetch(mutation, params).then(data => ...)\<close>. The cache
  is not read.
\<close>

definition perform :: "rid \<Rightarrow> json \<Rightarrow> ('v, 'e) world \<Rightarrow> (handle \<times> ('v, 'e) world) option" where
  "perform r params w =
     (case cacheKey params of
        None \<Rightarrow> None
      | Some key \<Rightarrow> Some (startFetch r params PerformCont w))"

text \<open>
  The promise of a fetch settles: its callbacks run, and the promise that \<^verbatim>\<open>then\<close>
  returned settles with the same result in the world the callbacks leave. A promise
  settles once; the event does nothing for a handle that is not pending.
\<close>

datatype ('v, 'e) settlement = Fulfilled 'v | Rejected 'e

definition settle ::
  "handle \<Rightarrow> ('v, 'e) settlement \<Rightarrow> ('v, 'e) world \<Rightarrow> ('v, 'e) world" where
  "settle h res w =
     (case pending w h of
        None \<Rightarrow> w
      | Some (ReadCont r key) \<Rightarrow>
          (case res of
             Fulfilled v \<Rightarrow> cacheSet r key (Completed v) (w\<lparr>pending := (pending w)(h := None)\<rparr>)
           | Rejected e \<Rightarrow> cacheSet r key (Error e) (w\<lparr>pending := (pending w)(h := None)\<rparr>))
      | Some PerformCont \<Rightarrow>
          (case res of
             Fulfilled v \<Rightarrow> clearAllCaches (w\<lparr>pending := (pending w)(h := None)\<rparr>)
           | Rejected e \<Rightarrow> w\<lparr>pending := (pending w)(h := None)\<rparr>))"

text \<open>A run of reads, one after the other, with nothing else in between.\<close>

fun reads ::
  "('v, 'e) world \<Rightarrow> (rid \<times> json) list \<Rightarrow> ('v, 'e) outcome list \<times> ('v, 'e) world" where
  "reads w [] = ([], w)"
| "reads w ((r, params) # rest) =
     (let (out, w') = unstable_useResource w r params;
          (outs, w'') = reads w' rest
      in (out # outs, w''))"

text \<open>How often \<^verbatim>\<open>config.fetch\<close> of resource \<open>r\<close> was called for the cache key \<open>key\<close>.\<close>

definition fetchCount :: "('v, 'e) world \<Rightarrow> rid \<Rightarrow> string \<Rightarrow> nat" where
  "fetchCount w r key =
     length (filter (\<lambda>(r', params). r' = r \<and> cacheKey params = Some key) (fetchCalls w))"

text \<open>
  What can happen to the world, one event at a time: a read, the effect that adds a
  listener and its cleanup, \<^verbatim>\<open>define\<close>, \<^verbatim>\<open>perform\<close>, the settlement of a promise, and a
  call of \<^verbatim>\<open>clearAllCaches\<close>.
\<close>

datatype ('v, 'e) event =
    Read rid json
  | Subscribe rid listener
  | Unsubscribe rid listener
  | Define "cachePolicy option"
  | Perform rid json
  | Settle handle "('v, 'e) settlement"
  | ClearAllCaches

fun step :: "('v, 'e) world \<Rightarrow> ('v, 'e) event \<Rightarrow> ('v, 'e) world" where
  "step w (Read r params) = snd (unstable_useResource w r params)"
| "step w (Subscribe r l) = subscribe r l w"
| "step w (Unsubscribe r l) = unsubscribe r l w"
| "step w (Define policy) = snd (defineResource policy w)"
| "step w (Perform r params) =
     (case perform r params w of None \<Rightarrow> w | Some (h, w') \<Rightarrow> w')"
| "step w (Settle h res) = settle h res w"
| "step w ClearAllCaches = clearAllCaches w"

fun run :: "('v, 'e) world \<Rightarrow> ('v, 'e) event list \<Rightarrow> ('v, 'e) world" where
  "run w [] = w"
| "run w (ev # evs) = run (step w ev) evs"

text \<open>
  The events that touch the state of the key \<open>key\<close> of resource \<open>r\<close> or call its fetch
  function for that key other than by a read: a clearing of the caches (a call of
  \<^verbatim>\<open>clearAllCaches\<close> or a fulfilled \<^verbatim>\<open>perform\<close>) when the resource is not "no-clear", the
  settlement of a fetch that a read of this key started, and a \<^verbatim>\<open>perform\<close> on this
  resource with params of this key.
\<close>

fun disturbs :: "('v, 'e) world \<Rightarrow> rid \<Rightarrow> string \<Rightarrow> ('v, 'e) event \<Rightarrow> bool" where
  "disturbs w r key ClearAllCaches = (cachePolicy (resourceRegistry w ! r) \<noteq> Some NoClear)"
| "disturbs w r key (Settle h res) =
     (case pending w h of
        None \<Rightarrow> False
      | Some (ReadCont r' key') \<Rightarrow> r' = r \<and> key' = key
      | Some PerformCont \<Rightarrow>
          (case res of
             Fulfilled v \<Rightarrow> cachePolicy (resourceRegistry w ! r) \<noteq> Some NoClear
           | Rejected e \<Rightarrow> False))"
| "disturbs w r key (Perform r' params) = (r' = r \<and> cacheKey params = Some key)"
| "disturbs w r key (Read r' params) = False"
| "disturbs w r key (Subscribe r' l) = False"
| "disturbs w r key (Unsubscribe r' l) = False"
| "disturbs w r key (Define policy) = False"

fun undisturbed :: "('v, 'e) world \<Rightarrow> rid \<Rightarrow> string \<Rightarrow> ('v, 'e) event list \<Rightarrow> bool" where
  "undisturbed w r key [] = True"
| "undisturbed w r key (ev # evs) =
     (\<not> disturbs w r key ev \<and> undisturbed (step w ev) r key evs)"

text \<open>What a read does in a state other than \<open>Init\<close>.\<close>

definition outcomeOf :: "('v, 'e) resourceState \<Rightarrow> ('v, 'e) outcome" where
  "outcomeOf st =
     (case st of
        Init \<Rightarrow> ThrowsInvariant
      | InProgress h \<Rightarrow> ThrowsPromise h
      | Completed v \<Rightarrow> Returns v
      | Error e \<Rightarrow> ThrowsError e)"

text \<open>A \<^verbatim>\<open>Set\<close> holds each listener once.\<close>

definition wellFormed :: "('v, 'e) world \<Rightarrow> bool" where
  "wellFormed w = list_all (\<lambda>resource. distinct (subcriptions resource)) (resourceRegistry w)"

section \<open>Query synthesis from an introspected schema\<close>

subsection \<open>Introspection data\<close>

text \<open>
  A type reference is tagged by its kind: the wrappers \<^verbatim>\<open>NON_NULL\<close> and \<^verbatim>\<open>LIST\<close> hold
  \<^verbatim>\<open>ofType\<close>, the other kinds the name of the type.
\<close>

datatype typeRef =
    NON_NULL typeRef
  | LIST typeRef
  | SCALAR string
  | OBJECT string
  | INTERFACE string
  | UNION string
  | ENUM string
  | INPUT_OBJECT string

datatype typeKind = K_SCALAR | K_OBJECT | K_INTERFACE | K_UNION | K_ENUM | K_INPUT_OBJECT

record inputValue =
  arg_name :: string
  arg_type :: typeRef

record field =
  field_name :: string
  field_description :: "string option"
  field_args :: "inputValue list"
  field_type :: typeRef

record introspectionType =
  type_kind :: typeKind
  type_name :: string
  type_fields :: "field list"

record introspectionSchema =
  schema_types :: "introspectionType list"
  queryType_name :: string

type_synonym typesMap = "string \<rightharpoonup> introspectionType"

datatype error = ConfigError string | InvariantViolation string

subsection \<open>Field specifications\<close>

datatype queryFieldSpec =
  QueryFieldSpec (qfield: string) (qrequire: "queryFieldSpec list option")

record fieldSpec =
  title :: string
  require :: queryFieldSpec

subsection \<open>The query AST\<close>

text \<open>
  A field node has a name, arguments (each passes the variable of its own name) and the
  selections of its selection set; a field node built without \<^verbatim>\<open>arguments\<close> has none.
\<close>

datatype argumentNode = Argument (argumentName: string) (argumentVariable: string)

datatype fieldNode =
  Field (fieldNodeName: string) (fieldNodeArguments: "argumentNode list")
    (fieldNodeSelections: "fieldNode list")

datatype typeNode = NamedType string | ListType typeNode | NonNullType typeNode

datatype variableDefinitionNode =
  VariableDefinition (variableName: string) (variableType: typeNode)

record queryAST =
  q_operationName :: string
  q_selectionSet :: "fieldNode list"
  q_variableDefinitions :: "variableDefinitionNode list"
  q_columns :: "fieldNode list"
  q_introspectionTypesMap :: typesMap
  q_fieldSpecsUpdated :: "(string \<times> fieldSpec) list"
  q_description :: "string option"

subsection \<open>JavaScript Map and object, in the order of their keys\<close>

text \<open>
  \<^verbatim>\<open>Map.prototype.set\<close>: a key already there keeps its place, a new key goes last.
\<close>

fun mapSet :: "'k \<Rightarrow> 'v \<Rightarrow> ('k \<times> 'v) list \<Rightarrow> ('k \<times> 'v) list" where
  "mapSet k v [] = [(k, v)]"
| "mapSet k v ((k', v') # m) = (if k' = k then (k, v) # m else (k', v') # mapSet k v m)"

text \<open>
  Property assignment \<^verbatim>\<open>obj[k] = v\<close> on a plain object, as its keys are enumerated
  afterwards: a key already there keeps its place; a new key that is an array index (the
  canonical decimal of a number below \<open>2\<^sup>3\<^sup>2 - 1\<close>) goes among the array indices, which
  come first in ascending order; any other new key goes last. The values assigned here
  are objects, and assigning one to \<^verbatim>\<open>__proto__\<close> sets the prototype and adds no key.
\<close>

definition isDigit :: "char \<Rightarrow> bool" where
  "isDigit c = (48 \<le> (of_char c :: nat) \<and> (of_char c :: nat) \<le> 57)"

definition digitsToNat :: "string \<Rightarrow> nat" where
  "digitsToNat s = foldl (\<lambda>n c. 10 * n + (of_char c - 48)) 0 s"

definition isArrayIndex :: "string \<Rightarrow> bool" where
  "isArrayIndex s =
     (s \<noteq> [] \<and> list_all isDigit s \<and> (s = ''0'' \<or> hd s \<noteq> CHR ''0'') \<and>
      digitsToNat s < 2 ^ 32 - 1)"

fun insertIndexKey :: "string \<Rightarrow> 'v \<Rightarrow> (string \<times> 'v) list \<Rightarrow> (string \<times> 'v) list" where
  "insertIndexKey k v [] = [(k, v)]"
| "insertIndexKey k v ((k', v') # rest) =
     (if isArrayIndex k' \<and> digitsToNat k' < digitsToNat k
      then (k', v') # insertIndexKey k v rest
      else (k, v) # (k', v') # rest)"

definition objSet :: "string \<Rightarrow> 'v \<Rightarrow> (string \<times> 'v) list \<Rightarrow> (string \<times> 'v) list" where
  "objSet k v obj =
     (if k = ''__proto__'' then obj
      else if k \<in> set (map fst obj)
        then map (\<lambda>(k', v'). if k' = k then (k', v) else (k', v')) obj
      else if isArrayIndex k then insertIndexKey k v obj
      else obj @ [(k, v)])"

text \<open>The keys that a plain object lists in the order of their insertion.\<close>

definition plainKey :: "string \<Rightarrow> bool" where
  "plainKey k = (\<not> isArrayIndex k \<and> k \<noteq> ''__proto__'')"

subsection \<open>Selection sets from field specifications\<close>

fun makeSelectionSetFromQueryFieldSpec :: "queryFieldSpec \<Rightarrow> fieldNode list" where
  "makeSelectionSetFromQueryFieldSpec (QueryFieldSpec f req) =
     (case req of
        None \<Rightarrow> []
      | Some queries \<Rightarrow>
          map (\<lambda>query. Field (qfield query) [] (makeSelectionSetFromQueryFieldSpec query)) queries)"

definition makeSelectionSetFromSpec :: "fieldSpec \<Rightarrow> fieldNode list" where
  "makeSelectionSetFromSpec fieldSpec =
     (case qrequire (require fieldSpec) of
        None \<Rightarrow> []
      | Some objs \<Rightarrow>
          map (\<lambda>obj. Field (qfield obj) [] (makeSelectionSetFromQueryFieldSpec obj)) objs)"

subsection \<open>Arguments, variables and types\<close>

definition buildArgumentNode :: "inputValue \<Rightarrow> argumentNode" where
  "buildArgumentNode introInputValue =
     Argument (arg_name introInputValue) (arg_name introInputValue)"

fun buildTypeNode :: "typeRef \<Rightarrow> error + typeNode" where
  "buildTypeNode (NON_NULL ofType) =
     (case buildTypeNode ofType of
        Inl e \<Rightarrow> Inl e
      | Inr (NonNullType t) \<Rightarrow> Inl (InvariantViolation ''Nested NonNullType is not possible'')
      | Inr t \<Rightarrow> Inr (NonNullType t))"
| "buildTypeNode (LIST ofType) =
     (case buildTypeNode ofType of Inl e \<Rightarrow> Inl e | Inr t \<Rightarrow> Inr (ListType t))"
| "buildTypeNode (INPUT_OBJECT n) = Inr (NamedType n)"
| "buildTypeNode (ENUM n) = Inr (NamedType n)"
| "buildTypeNode (SCALAR n) = Inr (NamedType n)"
| "buildTypeNode (OBJECT n) =
     Inl (InvariantViolation ''Unknown GraphQL introspection type: OBJECT'')"
| "buildTypeNode (INTERFACE n) =
     Inl (InvariantViolation ''Unknown GraphQL introspection type: INTERFACE'')"
| "buildTypeNode (UNION n) =
     Inl (InvariantViolation ''Unknown GraphQL introspection type: UNION'')"

definition buildVariableDefinitionNode :: "inputValue \<Rightarrow> error + variableDefinitionNode" where
  "buildVariableDefinitionNode introInputValue =
     (case buildTypeNode (arg_type introInputValue) of
        Inl e \<Rightarrow> Inl e
      | Inr t \<Rightarrow> Inr (VariableDefinition (arg_name introInputValue) t))"

text \<open>\<^verbatim>\<open>inputValues.map(buildVariableDefinitionNode)\<close>: the first failure is thrown.\<close>

fun buildVariableDefinitions :: "inputValue list \<Rightarrow> error + variableDefinitionNode list" where
  "buildVariableDefinitions [] = Inr []"
| "buildVariableDefinitions (introInputValue # rest) =
     (case buildVariableDefinitionNode introInputValue of
        Inl e \<Rightarrow> Inl e
      | Inr d \<Rightarrow>
          (case buildVariableDefinitions rest of Inl e \<Rightarrow> Inl e | Inr ds \<Rightarrow> Inr (d # ds)))"

subsection \<open>Field resolution\<close>

definition isFieldNodeScalarLike :: "field \<Rightarrow> bool" where
  "isFieldNodeScalarLike field =
     (case field_type field of
        SCALAR n \<Rightarrow> True
      | NON_NULL (SCALAR n) \<Rightarrow> True
      | _ \<Rightarrow> False)"

definition noTypeMessage :: "string \<Rightarrow> string \<Rightarrow> string" where
  "noTypeMessage typeName fieldName =
     ''No type for field '' @ [CHR 0x22] @ typeName @ ''.'' @ fieldName @ [CHR 0x22] @ '' found''"

definition noFieldMessage :: "string \<Rightarrow> string \<Rightarrow> string" where
  "noFieldMessage typeName fieldName =
     ''No field '' @ [CHR 0x22] @ typeName @ ''.'' @ fieldName @ [CHR 0x22] @ '' found''"

text \<open>
  The inner \<^verbatim>\<open>resolveType\<close> of \<^verbatim>\<open>resolveField\<close>; \<open>msg\<close> is the message of its closing
  invariant \<^verbatim>\<open>nextType != null\<close>. A \<^verbatim>\<open>SCALAR\<close> leaves \<^verbatim>\<open>nextType\<close> undefined.
\<close>

fun resolveType :: "typesMap \<Rightarrow> string \<Rightarrow> typeRef \<Rightarrow> error + introspectionType" where
  "resolveType typesMap msg (NON_NULL ofType) = resolveType typesMap msg ofType"
| "resolveType typesMap msg (LIST ofType) = resolveType typesMap msg ofType"
| "resolveType typesMap msg (ENUM n) =
     (case typesMap n of None \<Rightarrow> Inl (InvariantViolation msg) | Some nextType \<Rightarrow> Inr nextType)"
| "resolveType typesMap msg (SCALAR n) = Inl (InvariantViolation msg)"
| "resolveType typesMap msg (UNION n) =
     (case typesMap n of None \<Rightarrow> Inl (InvariantViolation msg) | Some nextType \<Rightarrow> Inr nextType)"
| "resolveType typesMap msg (INTERFACE n) =
     (case typesMap n of None \<Rightarrow> Inl (InvariantViolation msg) | Some nextType \<Rightarrow> Inr nextType)"
| "resolveType typesMap msg (OBJECT n) =
     (case typesMap n of None \<Rightarrow> Inl (InvariantViolation msg) | Some nextType \<Rightarrow> Inr nextType)"
| "resolveType typesMap msg (INPUT_OBJECT n) = Inl (InvariantViolation ''Impossible'')"

definition resolveField ::
  "typesMap \<Rightarrow> introspectionType \<Rightarrow> string \<Rightarrow> error + (field \<times> introspectionType)" where
  "resolveField typesMap type fieldName =
     (case find (\<lambda>f. field_name f = fieldName) (type_fields type) of
        None \<Rightarrow> Inl (ConfigError (noFieldMessage (type_name type) fieldName))
      | Some field \<Rightarrow>
          (case resolveType typesMap (noTypeMessage (type_name type) fieldName)
                  (field_type field) of
             Inl e \<Rightarrow> Inl e
           | Inr nextType \<Rightarrow>
               if type_kind nextType \<noteq> K_OBJECT
               then Inl (ConfigError ''Expected object type for nextType.kind'')
               else Inr (field, nextType)))"

subsection \<open>Building the selection set\<close>

definition COMMON_NAMES :: "string list" where
  "COMMON_NAMES =
     [''id'', ''name'', ''first_name'', ''last_name'', ''title'', ''display_name'',
      ''gender'', ''sex'']"

text \<open>
  With a configuration: \<^verbatim>\<open>fieldSpecsMap\<close> holds each requested spec under the field it
  requires, in the order \<^verbatim>\<open>for (let name in fieldSpecsRequested)\<close> visits the entries.
\<close>

definition requestedSpecsMap :: "(string \<times> fieldSpec) list \<Rightarrow> (string \<times> fieldSpec) list" where
  "requestedSpecsMap fieldSpecsRequested =
     foldl (\<lambda>fieldSpecsMap (name, fieldSpec).
              mapSet (qfield (require fieldSpec)) fieldSpec fieldSpecsMap)
       [] fieldSpecsRequested"

text \<open>
  Without a configuration: a spec for each scalar-like field, titled by
  \<^verbatim>\<open>Field.guessFieldTitle\<close> (of \<^verbatim>\<open>Field.js\<close>; a parameter here).
\<close>

definition scalarSpecsMap ::
  "(string \<Rightarrow> string) \<Rightarrow> field list \<Rightarrow> (string \<times> fieldSpec) list" where
  "scalarSpecsMap guessFieldTitle fieldIntros =
     foldl (\<lambda>fieldSpecsMap field.
              mapSet (field_name field)
                \<lparr>title = guessFieldTitle (field_name field),
                 require = QueryFieldSpec (field_name field) None\<rparr> fieldSpecsMap)
       [] fieldIntros"

text \<open>The loop over \<^verbatim>\<open>COMMON_NAMES\<close>: the object \<^verbatim>\<open>fieldSpecs\<close> and the names \<^verbatim>\<open>seen\<close>.\<close>

definition commonNamesLoop ::
  "(string \<times> fieldSpec) list \<Rightarrow> string list \<Rightarrow>
   (string \<times> fieldSpec) list \<times> string list \<Rightarrow> (string \<times> fieldSpec) list \<times> string list" where
  "commonNamesLoop fieldSpecsMap names start =
     foldl (\<lambda>(fieldSpecs, seen) name.
              case map_of fieldSpecsMap name of
                None \<Rightarrow> (fieldSpecs, seen)
              | Some spec \<Rightarrow> (objSet name spec fieldSpecs, seen @ [name]))
       start names"

text \<open>The loop over \<^verbatim>\<open>fieldSpecsMap.values()\<close>.\<close>

definition remainingLoop ::
  "string list \<Rightarrow> fieldSpec list \<Rightarrow> (string \<times> fieldSpec) list \<Rightarrow> (string \<times> fieldSpec) list" where
  "remainingLoop seen specs start =
     foldl (\<lambda>fieldSpecs spec.
              if qfield (require spec) \<notin> set seen
              then objSet (qfield (require spec)) spec fieldSpecs
              else fieldSpecs)
       start specs"

text \<open>
  The first part of the branch \<^verbatim>\<open>path.length === 0\<close>: \<^verbatim>\<open>fieldSpecsMap\<close>,
  \<^verbatim>\<open>fieldIntros\<close> and \<^verbatim>\<open>fieldSpecs\<close>.
\<close>

definition targetFieldSpecs ::
  "(string \<Rightarrow> string) \<Rightarrow> introspectionType \<Rightarrow> (string \<times> fieldSpec) list option \<Rightarrow>
   (string \<times> fieldSpec) list \<times> field list \<times> (string \<times> fieldSpec) list" where
  "targetFieldSpecs guessFieldTitle type fieldSpecsRequested =
     (case fieldSpecsRequested of
        Some requested \<Rightarrow>
          (let fieldSpecsMap = requestedSpecsMap requested
           in (fieldSpecsMap,
               filter (\<lambda>field. map_of fieldSpecsMap (field_name field) \<noteq> None \<or>
                                field_name field = ''id'') (type_fields type),
               requested))
      | None \<Rightarrow>
          (let fieldIntros = filter isFieldNodeScalarLike (type_fields type);
               fieldSpecsMap = scalarSpecsMap guessFieldTitle fieldIntros;
               (fieldSpecs, seen) = commonNamesLoop fieldSpecsMap COMMON_NAMES ([], [])
           in (fieldSpecsMap, fieldIntros,
               remainingLoop seen (map snd fieldSpecsMap) fieldSpecs)))"

text \<open>
  The loop over \<^verbatim>\<open>fieldIntros\<close>: the selections and the input values, or the
  \<^verbatim>\<open>ConfigError\<close> of the first field without a spec.
\<close>

fun buildSelections ::
  "(string \<times> fieldSpec) list \<Rightarrow> field list \<Rightarrow> error + (fieldNode list \<times> inputValue list)" where
  "buildSelections fieldSpecsMap [] = Inr ([], [])"
| "buildSelections fieldSpecsMap (field # rest) =
     (case (case map_of fieldSpecsMap (field_name field) of
              None \<Rightarrow>
                if field_name field = ''id''
                then Inr \<lparr>title = ''ID'', require = QueryFieldSpec ''id'' None\<rparr>
                else Inl (ConfigError (''Missing field spec for '' @ field_name field))
            | Some fieldSpec \<Rightarrow> Inr fieldSpec) of
        Inl e \<Rightarrow> Inl e
      | Inr fieldSpec \<Rightarrow>
          (case buildSelections fieldSpecsMap rest of
             Inl e \<Rightarrow> Inl e
           | Inr (selections, inputValues) \<Rightarrow>
               Inr (Field (field_name field) (map buildArgumentNode (field_args field))
                      (makeSelectionSetFromSpec fieldSpec) # selections,
                    field_args field @ inputValues)))"

text \<open>
  \<^verbatim>\<open>buildSelectionSet(typesMap, type, path, fieldSpecsRequested)\<close>: the selection set,
  the selections at the target type, the input values, the field specs and a
  description.
\<close>

fun buildSelectionSet ::
  "(string \<Rightarrow> string) \<Rightarrow> typesMap \<Rightarrow> introspectionType \<Rightarrow> string list \<Rightarrow>
   (string \<times> fieldSpec) list option \<Rightarrow>
   error + (fieldNode list \<times> fieldNode list \<times> inputValue list \<times>
            (string \<times> fieldSpec) list \<times> string option)" where
  "buildSelectionSet guessFieldTitle typesMap type [] fieldSpecsRequested =
     (let (fieldSpecsMap, fieldIntros, fieldSpecs) =
            targetFieldSpecs guessFieldTitle type fieldSpecsRequested
      in case buildSelections fieldSpecsMap fieldIntros of
           Inl e \<Rightarrow> Inl e
         | Inr (selections, inputValues) \<Rightarrow>
             Inr (selections, selections, inputValues, fieldSpecs, None))"
| "buildSelectionSet guessFieldTitle typesMap type (fieldName # restPath) fieldSpecsRequested =
     (case resolveField typesMap type fieldName of
        Inl e \<Rightarrow> Inl e
      | Inr (field, fieldType) \<Rightarrow>
          (case buildSelectionSet guessFieldTitle typesMap fieldType restPath
                  fieldSpecsRequested of
             Inl e \<Rightarrow> Inl e
           | Inr (selectionSet, selections, nextInputValues, fieldSpecs, d) \<Rightarrow>
               Inr ([Field fieldName (map buildArgumentNode (field_args field)) selectionSet],
                    selections, field_args field @ nextInputValues, fieldSpecs,
                    field_description field)))"

text \<open>The \<^verbatim>\<open>typesMap\<close> of \<^verbatim>\<open>buildQueryAST\<close>: a later type of a name replaces an earlier.\<close>

definition buildTypesMap :: "introspectionType list \<Rightarrow> typesMap" where
  "buildTypesMap types = foldl (\<lambda>typesMap t. typesMap(type_name t \<mapsto> t)) Map.empty types"

text \<open>
  \<^verbatim>\<open>buildQueryAST(schema, path, fieldSpecsRequested)\<close>; \<open>path\<close> is the array
  \<^verbatim>\<open>QueryPath.toArray(path)\<close>.
\<close>

definition buildQueryAST ::
  "(string \<Rightarrow> string) \<Rightarrow> introspectionSchema \<Rightarrow> string list \<Rightarrow>
   (string \<times> fieldSpec) list option \<Rightarrow> error + queryAST" where
  "buildQueryAST guessFieldTitle schema path fieldSpecsRequested =
     (let typesMap = buildTypesMap (schema_types schema)
      in case typesMap (queryType_name schema) of
           None \<Rightarrow> Inl (ConfigError ''Expected ObjectType at the root'')
         | Some rootType \<Rightarrow>
             if type_kind rootType \<noteq> K_OBJECT
             then Inl (ConfigError ''Expected rootType as OBJECT at the root'')
             else
               (case buildSelectionSet guessFieldTitle typesMap rootType path
                       fieldSpecsRequested of
                  Inl e \<Rightarrow> Inl e
                | Inr (selectionSet, columns, inputValues, fieldSpecsUpdated,
                       fieldDescription) \<Rightarrow>
                    (case buildVariableDefinitions inputValues of
                       Inl e \<Rightarrow> Inl e
                     | Inr defs \<Rightarrow>
                         Inr \<lparr>q_operationName = ''ConstructedQuery'',
                              q_selectionSet = selectionSet,
                              q_variableDefinitions = defs,
                              q_columns = columns,
                              q_introspectionTypesMap = typesMap,
                              q_fieldSpecsUpdated = fieldSpecsUpdated,
                              q_description = fieldDescription\<rparr>)))"

subsection \<open>Notions the statements use\<close>

text \<open>The named type under the \<^verbatim>\<open>NON_NULL\<close> and \<^verbatim>\<open>LIST\<close> wrappers of a reference.\<close>

fun namedTypeOf :: "typeRef \<Rightarrow> typeRef" where
  "namedTypeOf (NON_NULL t) = namedTypeOf t"
| "namedTypeOf (LIST t) = namedTypeOf t"
| "namedTypeOf t = t"

text \<open>
  The hops of a path, as long as each resolves: the fields traversed and the type
  reached.
\<close>

fun walkPath ::
  "typesMap \<Rightarrow> introspectionType \<Rightarrow> string list \<Rightarrow> (field list \<times> introspectionType) option" where
  "walkPath typesMap type [] = Some ([], type)"
| "walkPath typesMap type (fieldName # restPath) =
     (case resolveField typesMap type fieldName of
        Inl e \<Rightarrow> None
      | Inr (field, fieldType) \<Rightarrow>
          (case walkPath typesMap fieldType restPath of
             None \<Rightarrow> None
           | Some (hops, target) \<Rightarrow> Some (field # hops, target)))"

text \<open>
  The spec's words for a scalar-like field, on the field's type: \<^verbatim>\<open>SCALAR\<close>, or
  \<^verbatim>\<open>NON_NULL\<close> of \<^verbatim>\<open>SCALAR\<close>.
\<close>

fun specScalarLike :: "typeRef \<Rightarrow> bool" where
  "specScalarLike (SCALAR n) = True"
| "specScalarLike (NON_NULL (SCALAR n)) = True"
| "specScalarLike t = False"

text \<open>The spec's fixed priority list of identity-like field names.\<close>

definition specPriorityNames :: "string list" where
  "specPriorityNames =
     [''id'', ''name'', ''first_name'', ''last_name'', ''title'', ''display_name'',
      ''gender'', ''sex'']"

text \<open>The elements of a list in the order of their first occurrence.\<close>

fun firstOccurrences :: "'a list \<Rightarrow> 'a list" where
  "firstOccurrences [] = []"
| "firstOccurrences (x # xs) = x # filter (\<lambda>y. y \<noteq> x) (firstOccurrences xs)"

text \<open>
  The name under which the index is asked for the type of a reference: that of the named
  type under the wrappers, none for a \<^verbatim>\<open>SCALAR\<close> or an \<^verbatim>\<open>INPUT_OBJECT\<close>.
\<close>

fun indexedName :: "typeRef \<Rightarrow> string option" where
  "indexedName (NON_NULL t) = indexedName t"
| "indexedName (LIST t) = indexedName t"
| "indexedName (SCALAR n) = None"
| "indexedName (INPUT_OBJECT n) = None"
| "indexedName (OBJECT n) = Some n"
| "indexedName (INTERFACE n) = Some n"
| "indexedName (UNION n) = Some n"
| "indexedName (ENUM n) = Some n"

text \<open>The fields selected at the target type: \<^verbatim>\<open>fieldIntros\<close>, by the names requested.\<close>

definition selectedFields :: "introspectionType \<Rightarrow> (string \<times> fieldSpec) list option \<Rightarrow> field list" where
  "selectedFields type fieldSpecsRequested =
     (case fieldSpecsRequested of
        None \<Rightarrow> filter isFieldNodeScalarLike (type_fields type)
      | Some requested \<Rightarrow>
          filter (\<lambda>field. field_name field \<in> (\<lambda>(name, spec). qfield (require spec)) ` set requested \<or>
                           field_name field = ''id'') (type_fields type))"

section \<open>Example inputs\<close>

text \<open>A registry of two resources: resource 0 of the default policy, resource 1 "no-clear".\<close>

definition exampleWorld :: "(nat, string) world" where
  "exampleWorld = snd (defineResource (Some NoClear) (snd (defineResource None initialWorld)))"

text \<open>
  Four resources after some reads have settled: resource 0 (default policy) holds a value
  and has two listeners, resource 1 ("no-clear") holds a value and has one listener,
  resource 2 ("regular") holds an error, resource 3 is a mutation.
\<close>

definition cachedWorld :: "(nat, string) world" where
  "cachedWorld =
     \<lparr>resourceRegistry =
        [\<lparr>cachePolicy = None, cache = [''{}'' \<mapsto> Completed 11], subcriptions = [5, 6]\<rparr>,
         \<lparr>cachePolicy = Some NoClear, cache = [''{}'' \<mapsto> Completed 22], subcriptions = [7]\<rparr>,
         \<lparr>cachePolicy = Some Regular, cache = [''{}'' \<mapsto> Error ''boom''], subcriptions = []\<rparr>,
         \<lparr>cachePolicy = None, cache = Map.empty, subcriptions = []\<rparr>],
      pending = Map.empty, nextHandle = 3,
      fetchCalls = [(0, JUndefined), (1, JUndefined), (2, JUndefined)], notifications = []\<rparr>"

text \<open>The same two properties, inserted in the two orders.\<close>

definition paramsAB :: json where
  "paramsAB = JObj [(''a'', JNum 1), (''b'', JNum 2)]"

definition paramsBA :: json where
  "paramsBA = JObj [(''b'', JNum 2), (''a'', JNum 1)]"

text \<open>Resource 0 of \<open>exampleWorld\<close> after a read of \<open>paramsAB\<close> that settled with 5.\<close>

definition worldAB :: "(nat, string) world" where
  "worldAB = settle 0 (Fulfilled 5) (snd (unstable_useResource exampleWorld 0 paramsAB))"

text \<open>Events after a read of key \<^verbatim>\<open>{}\<close> of resource 0 of \<open>exampleWorld\<close>.\<close>

definition exampleEvents :: "(nat, string) event list" where
  "exampleEvents =
     [Read 0 JUndefined, Read 1 JNull, Settle 1 (Fulfilled 4), Subscribe 0 3,
      Perform 1 JNull, Read 0 (JObj [])]"


text \<open>
  A type that mixes scalar-like fields (email, id, display_name, age) with a list of
  objects, an object under the priority name \<^verbatim>\<open>title\<close>, a non-null list of scalars and
  an enum.
\<close>

definition memberType :: introspectionType where
  "memberType =
     \<lparr>type_kind = K_OBJECT, type_name = ''Member'',
      type_fields =
        [\<lparr>field_name = ''email'', field_description = None, field_args = [],
          field_type = SCALAR ''String''\<rparr>,
         \<lparr>field_name = ''friends'', field_description = None, field_args = [],
          field_type = LIST (OBJECT ''Member'')\<rparr>,
         \<lparr>field_name = ''id'', field_description = None, field_args = [],
          field_type = NON_NULL (SCALAR ''ID'')\<rparr>,
         \<lparr>field_name = ''title'', field_description = None, field_args = [],
          field_type = OBJECT ''Title''\<rparr>,
         \<lparr>field_name = ''display_name'', field_description = None, field_args = [],
          field_type = SCALAR ''String''\<rparr>,
         \<lparr>field_name = ''tags'', field_description = None, field_args = [],
          field_type = NON_NULL (LIST (SCALAR ''String''))\<rparr>,
         \<lparr>field_name = ''status'', field_description = None, field_args = [],
          field_type = ENUM ''Status''\<rparr>,
         \<lparr>field_name = ''age'', field_description = None, field_args = [],
          field_type = SCALAR ''Int''\<rparr>]\<rparr>"

text \<open>A type whose fields are declared in the order email, id, display_name, age.\<close>

definition personType :: introspectionType where
  "personType =
     \<lparr>type_kind = K_OBJECT, type_name = ''Person'',
      type_fields =
        [\<lparr>field_name = ''email'', field_description = None, field_args = [],
          field_type = SCALAR ''String''\<rparr>,
         \<lparr>field_name = ''id'', field_description = None, field_args = [],
          field_type = NON_NULL (SCALAR ''ID'')\<rparr>,
         \<lparr>field_name = ''display_name'', field_description = None, field_args = [],
          field_type = SCALAR ''String''\<rparr>,
         \<lparr>field_name = ''age'', field_description = None, field_args = [],
          field_type = SCALAR ''Int''\<rparr>]\<rparr>"

text \<open>
  A schema: \<^verbatim>\<open>Query.patients(search, limit)\<close>, \<^verbatim>\<open>PatientConnection.edges(limit)\<close>,
  \<^verbatim>\<open>PatientEdge.node\<close>, and \<^verbatim>\<open>Patient\<close> with the scalars \<^verbatim>\<open>id\<close>, \<^verbatim>\<open>name\<close> and
  \<^verbatim>\<open>visits(limit)\<close> and the enum \<^verbatim>\<open>status\<close>.
\<close>

definition limitArg :: inputValue where
  "limitArg = \<lparr>arg_name = ''limit'', arg_type = SCALAR ''Int''\<rparr>"

definition searchArg :: inputValue where
  "searchArg = \<lparr>arg_name = ''search'', arg_type = SCALAR ''String''\<rparr>"

definition patientsField :: field where
  "patientsField =
     \<lparr>field_name = ''patients'', field_description = Some ''All patients'',
      field_args = [searchArg, limitArg], field_type = OBJECT ''PatientConnection''\<rparr>"

definition edgesField :: field where
  "edgesField =
     \<lparr>field_name = ''edges'', field_description = None,
      field_args = [limitArg], field_type = LIST (OBJECT ''PatientEdge'')\<rparr>"

definition nodeField :: field where
  "nodeField =
     \<lparr>field_name = ''node'', field_description = None,
      field_args = [], field_type = NON_NULL (OBJECT ''Patient'')\<rparr>"

definition queryType :: introspectionType where
  "queryType = \<lparr>type_kind = K_OBJECT, type_name = ''Query'', type_fields = [patientsField]\<rparr>"

definition patientConnectionType :: introspectionType where
  "patientConnectionType =
     \<lparr>type_kind = K_OBJECT, type_name = ''PatientConnection'', type_fields = [edgesField]\<rparr>"

definition patientEdgeType :: introspectionType where
  "patientEdgeType =
     \<lparr>type_kind = K_OBJECT, type_name = ''PatientEdge'', type_fields = [nodeField]\<rparr>"

definition patientType :: introspectionType where
  "patientType =
     \<lparr>type_kind = K_OBJECT, type_name = ''Patient'',
      type_fields =
        [\<lparr>field_name = ''id'', field_description = None, field_args = [],
          field_type = NON_NULL (SCALAR ''ID'')\<rparr>,
         \<lparr>field_name = ''name'', field_description = None, field_args = [],
          field_type = SCALAR ''String''\<rparr>,
         \<lparr>field_name = ''status'', field_description = None, field_args = [],
          field_type = ENUM ''Status''\<rparr>,
         \<lparr>field_name = ''visits'', field_description = None, field_args = [limitArg],
          field_type = SCALAR ''Int''\<rparr>]\<rparr>"

definition statusType :: introspectionType where
  "statusType = \<lparr>type_kind = K_ENUM, type_name = ''Status'', type_fields = []\<rparr>"

definition exampleSchema :: introspectionSchema where
  "exampleSchema =
     \<lparr>schema_types = [queryType, patientConnectionType, patientEdgeType, patientType, statusType],
      queryType_name = ''Query''\<rparr>"

definition exampleTypesMap :: typesMap where
  "exampleTypesMap = buildTypesMap (schema_types exampleSchema)"

text \<open>A configuration of one entry, which requires the field \<^verbatim>\<open>email\<close>.\<close>

definition emailConfig :: "(string \<times> fieldSpec) list" where
  "emailConfig = [(''contact'', \<lparr>title = ''Contact'', require = QueryFieldSpec ''email'' None\<rparr>)]"

section \<open>Properties of the resource cache\<close>

subsection \<open>Cache and logs under the elementary steps\<close>

lemma length_cacheSet [simp]: "length (resourceRegistry (cacheSet r k st w)) = length (resourceRegistry w)"
  by (simp add: cacheSet_def)

lemma cacheGet_cacheSet:
  "r < length (resourceRegistry w) \<Longrightarrow>
   cacheGet (cacheSet r k st w) r' k' = (if r' = r \<and> k' = k then st else cacheGet w r' k')"
  by (auto simp: cacheGet_def cacheSet_def nth_list_update)

lemma fetchCalls_cacheSet [simp]: "fetchCalls (cacheSet r k st w) = fetchCalls w"
  by (simp add: cacheSet_def)

lemma startFetch_simps [simp]:
  "fst (startFetch r p k w) = nextHandle w"
  "resourceRegistry (snd (startFetch r p k w)) = resourceRegistry w"
  "fetchCalls (snd (startFetch r p k w)) = fetchCalls w @ [(r, p)]"
  "nextHandle (snd (startFetch r p k w)) = Suc (nextHandle w)"
  "pending (snd (startFetch r p k w)) = (pending w)(nextHandle w \<mapsto> k)"
  "notifications (snd (startFetch r p k w)) = notifications w"
  by (simp_all add: startFetch_def)

lemma cacheGet_startFetch [simp]: "cacheGet (snd (startFetch r p k w)) r' k' = cacheGet w r' k'"
  by (simp add: cacheGet_def)

lemma cachePolicy_cacheSet [simp]:
  "cachePolicy (resourceRegistry (cacheSet r' k st w) ! r) = cachePolicy (resourceRegistry w ! r)"
proof (cases "r' < length (resourceRegistry w)")
  case True
  then show ?thesis by (cases "r = r'") (simp_all add: cacheSet_def)
next
  case False
  then show ?thesis by (simp add: cacheSet_def list_update_beyond)
qed

lemma read_Init:
  assumes "cacheKey params = Some key" "cacheGet w r key = Init"
  shows "unstable_useResource w r params =
     (ThrowsPromise (nextHandle w),
      cacheSet r key (InProgress (nextHandle w)) (snd (startFetch r params (ReadCont r key) w)))"
  using assms by (simp add: unstable_useResource_def split_beta)

lemma read_settled:
  assumes "cacheKey params = Some key" "cacheGet w r key = st" "st \<noteq> Init"
  shows "unstable_useResource w r params = (outcomeOf st, w)"
  using assms by (cases st) (simp_all add: unstable_useResource_def outcomeOf_def)

lemma fetchCount_append:
  "fetchCalls w' = fetchCalls w @ [(r', p')] \<Longrightarrow>
   fetchCount w' r key = fetchCount w r key + (if r' = r \<and> cacheKey p' = Some key then 1 else 0)"
  by (simp add: fetchCount_def)

lemma read_keeps_state:
  assumes r: "r < length (resourceRegistry w)"
      and st: "cacheGet w r key = st" "st \<noteq> Init"
      and rd: "unstable_useResource w r' p' = (out, w')"
  shows "length (resourceRegistry w') = length (resourceRegistry w) \<and> cacheGet w' r key = st \<and>
         fetchCount w' r key = fetchCount w r key \<and>
         cachePolicy (resourceRegistry w' ! r) = cachePolicy (resourceRegistry w ! r) \<and>
         (r' = r \<and> cacheKey p' = Some key \<longrightarrow> out = outcomeOf st \<and> w' = w)"
proof (cases "cacheKey p'")
  case None
  with rd show ?thesis using st by (simp add: unstable_useResource_def)
next
  case (Some k')
  show ?thesis
  proof (cases "cacheGet w r' k' = Init")
    case True
    then have ne: "\<not> (r' = r \<and> k' = key)" using st by auto
    from read_Init[OF Some True] rd
    have w': "w' = cacheSet r' k' (InProgress (nextHandle w)) (snd (startFetch r' p' (ReadCont r' k') w))"
      by simp
    have "cacheGet w' r key = st"
    proof (cases "r' < length (resourceRegistry w)")
      case True
      then show ?thesis using ne st by (auto simp: w' cacheGet_cacheSet)
    next
      case False
      then show ?thesis using st by (simp add: w' cacheGet_def cacheSet_def list_update_beyond)
    qed
    moreover have "fetchCount w' r key = fetchCount w r key"
      using ne Some by (simp add: w' fetchCount_def)
    ultimately show ?thesis using ne Some by (auto simp: w')
  next
    case False
    from read_settled[OF Some refl False] rd have "w' = w" "out = outcomeOf (cacheGet w r' k')" by simp_all
    then show ?thesis using st Some by auto
  qed
qed

lemma reads_keep_state:
  assumes "r < length (resourceRegistry w)" "cacheGet w r key = st" "st \<noteq> Init"
      and "reads w rs = (outs, w')"
  shows "length outs = length rs \<and> cacheGet w' r key = st \<and>
         fetchCount w' r key = fetchCount w r key \<and>
         cachePolicy (resourceRegistry w' ! r) = cachePolicy (resourceRegistry w ! r) \<and>
         length (resourceRegistry w') = length (resourceRegistry w) \<and>
         (\<forall>i<length rs. fst (rs ! i) = r \<and> cacheKey (snd (rs ! i)) = Some key \<longrightarrow> outs ! i = outcomeOf st)"
  using assms
proof (induction rs arbitrary: w outs w')
  case Nil
  then show ?case by simp
next
  case (Cons a rs)
  obtain r' p' where a: "a = (r', p')" by (cases a)
  obtain out w1 where rd: "unstable_useResource w r' p' = (out, w1)" by (cases "unstable_useResource w r' p'")
  obtain outs1 w2 where rs: "reads w1 rs = (outs1, w2)" by (cases "reads w1 rs")
  from Cons.prems(4) a rd rs have eq: "outs = out # outs1" "w' = w2" by simp_all
  note k = read_keeps_state[OF Cons.prems(1,2,3) rd]
  from k Cons.prems(1) have len: "r < length (resourceRegistry w1)" by simp
  from k have st1: "cacheGet w1 r key = st" by simp
  note ih = Cons.IH[OF len st1 Cons.prems(3) rs]
  show ?case
  proof (intro conjI allI impI)
    show "length outs = length (a # rs)" using ih eq by simp
    show "cacheGet w' r key = st" using ih eq by simp
    show "fetchCount w' r key = fetchCount w r key" using ih k eq by simp
    show "cachePolicy (resourceRegistry w' ! r) = cachePolicy (resourceRegistry w ! r)"
      using ih k eq by simp
    show "length (resourceRegistry w') = length (resourceRegistry w)" using ih k eq by simp
  next
    fix i assume i: "i < length (a # rs)" and m: "fst ((a # rs) ! i) = r \<and> cacheKey (snd ((a # rs) ! i)) = Some key"
    show "outs ! i = outcomeOf st"
    proof (cases i)
      case 0
      then show ?thesis using m k a eq by simp
    next
      case (Suc j)
      then show ?thesis using m i ih eq by simp
    qed
  qed
qed

lemma cacheKey_undefined: "cacheKey JUndefined = Some ''{}''"
  by (simp add: cacheKey_def orEmptyObject_def)

lemma cacheKey_empty: "cacheKey (JObj []) = Some ''{}''"
  by (simp add: cacheKey_def orEmptyObject_def)

subsection \<open>Reads of a settled key\<close>

lemma clearFrom_fst:
  "fst (clearFrom i rs) =
     map (\<lambda>res. if cachePolicy res = Some NoClear then res else res\<lparr>cache := Map.empty\<rparr>) rs"
  by (induction rs arbitrary: i) (simp_all add: split_beta)

lemma count_list_map_Pair:
  "count_list (map (Pair i) xs) (j, l) = (if j = i then count_list xs l else 0)"
  by (induction xs) auto

lemma clearFrom_count:
  "count_list (snd (clearFrom i rs)) (j, l) =
     (if i \<le> j \<and> j < i + length rs \<and> cachePolicy (rs ! (j - i)) \<noteq> Some NoClear
      then count_list (subcriptions (rs ! (j - i))) l else 0)"
proof (induction rs arbitrary: i)
  case Nil
  then show ?case by simp
next
  case (Cons res rs)
  show ?case
  proof (cases "j = i")
    case True
    then show ?thesis using Cons.IH[of "Suc i"]
      by (simp add: split_beta count_list_map_Pair)
  next
    case False
    have "i \<le> j \<Longrightarrow> (res # rs) ! (j - i) = rs ! (j - Suc i)"
      using False by (simp add: nth_Cons')
    then show ?thesis using False Cons.IH[of "Suc i"]
      by (auto simp: split_beta count_list_map_Pair)
  qed
qed

lemma count_list_distinct:
  "distinct xs \<Longrightarrow> count_list xs x = (if x \<in> set xs then 1 else 0)"
  by (induction xs) auto

lemma clearAllCaches_simps [simp]:
  "resourceRegistry (clearAllCaches w) =
     map (\<lambda>res. if cachePolicy res = Some NoClear then res else res\<lparr>cache := Map.empty\<rparr>)
       (resourceRegistry w)"
  "notifications (clearAllCaches w) = notifications w @ snd (clearFrom 0 (resourceRegistry w))"
  "pending (clearAllCaches w) = pending w"
  "fetchCalls (clearAllCaches w) = fetchCalls w"
  "nextHandle (clearAllCaches w) = nextHandle w"
  by (simp_all add: clearAllCaches_def split_beta clearFrom_fst)

lemma clearAllCaches_called:
  assumes "wellFormed w" "i < length (resourceRegistry w)"
  shows "count_list (drop (length (notifications w)) (notifications (clearAllCaches w))) (i, l) =
     (if cachePolicy (resourceRegistry w ! i) \<noteq> Some NoClear \<and>
         l \<in> set (subcriptions (resourceRegistry w ! i)) then 1 else 0)"
proof -
  from assms have "distinct (subcriptions (resourceRegistry w ! i))"
    by (simp add: wellFormed_def list_all_length)
  then show ?thesis using assms(2)
    by (simp add: clearFrom_count count_list_distinct)
qed

lemma cacheGet_clearAllCaches:
  "r < length (resourceRegistry w) \<Longrightarrow>
   cacheGet (clearAllCaches w) r key =
     (if cachePolicy (resourceRegistry w ! r) = Some NoClear then cacheGet w r key else Init)"
  by (simp add: cacheGet_def)

lemma serializeJSONProperty_None: "serializeJSONProperty x = None \<longleftrightarrow> x = JUndefined"
  by (cases x) simp_all

lemma cacheKey_total: "\<exists>key. cacheKey params = Some key"
proof -
  have "orEmptyObject params \<noteq> JUndefined"
    by (cases params) (simp_all add: orEmptyObject_def)
  then show ?thesis
    using serializeJSONProperty_None[of "orEmptyObject params"] by (auto simp: cacheKey_def)
qed

lemma pending_cacheSet [simp]: "pending (cacheSet r k st w) = pending w"
  by (simp add: cacheSet_def)

lemma notifications_cacheSet [simp]: "notifications (cacheSet r k st w) = notifications w"
  by (simp add: cacheSet_def)

lemma wellFormed_cachedWorld: "wellFormed cachedWorld"
  by (simp add: wellFormed_def cachedWorld_def)

text \<open>
  Claim C4. A read of a key in state \<open>Completed v\<close> returns \<open>v\<close> and leaves the world as
  it is (no call of the fetch function). A read of a key in state \<open>Error e\<close> throws \<open>e\<close>
  and leaves the world as it is; after any run of reads the key is still \<open>Error e\<close>, each
  read of it in the run threw \<open>e\<close>, and the fetch function was not called for it. Clearing
  the caches returns the key of a resource that is not "no-clear" to \<open>Init\<close>.
\<close>

theorem read_completed_error:
  assumes "r < length (resourceRegistry w)"
      and "cacheKey params = Some key"
      and "reads w rs = (outs, w')"
  shows "(cacheGet w r key = Completed v \<longrightarrow> unstable_useResource w r params = (Returns v, w)) \<and>
     (cacheGet w r key = Error e \<longrightarrow>
        unstable_useResource w r params = (ThrowsError e, w) \<and>
        cacheGet w' r key = Error e \<and>
        fetchCount w' r key = fetchCount w r key \<and>
        (\<forall>i<length rs. fst (rs ! i) = r \<and> cacheKey (snd (rs ! i)) = Some key \<longrightarrow>
           outs ! i = ThrowsError e) \<and>
        (cachePolicy (resourceRegistry w ! r) \<noteq> Some NoClear \<longrightarrow>
           cacheGet (clearAllCaches w') r key = Init))"
proof (intro conjI impI)
  assume "cacheGet w r key = Completed v"
  from read_settled[OF assms(2) this] show "unstable_useResource w r params = (Returns v, w)"
    by (simp add: outcomeOf_def)
next
  assume e: "cacheGet w r key = Error e"
  from read_settled[OF assms(2) e] show "unstable_useResource w r params = (ThrowsError e, w)"
    by (simp add: outcomeOf_def)
  note k = reads_keep_state[OF assms(1) e _ assms(3)]
  from k show "cacheGet w' r key = Error e" by simp
  from k show "fetchCount w' r key = fetchCount w r key" by simp
  from k show "\<forall>i<length rs. fst (rs ! i) = r \<and> cacheKey (snd (rs ! i)) = Some key \<longrightarrow>
           outs ! i = ThrowsError e" by (simp add: outcomeOf_def)
next
  assume e: "cacheGet w r key = Error e" and p: "cachePolicy (resourceRegistry w ! r) \<noteq> Some NoClear"
  note k = reads_keep_state[OF assms(1) e _ assms(3)]
  from k assms(1) have "r < length (resourceRegistry w')" by simp
  from cacheGet_clearAllCaches[OF this] k p
  show "cacheGet (clearAllCaches w') r key = Init" by simp
qed


theorem read_completed_error_witness:
  "unstable_useResource cachedWorld 0 JUndefined = (Returns 11, cachedWorld) \<and>
   unstable_useResource cachedWorld 2 JUndefined = (ThrowsError ''boom'', cachedWorld) \<and>
   fst (reads cachedWorld [(2, JUndefined), (0, JNull), (2, JObj [])]) =
     [ThrowsError ''boom'', Returns 11, ThrowsError ''boom''] \<and>
   cacheGet (snd (reads cachedWorld [(2, JUndefined), (0, JNull), (2, JObj [])])) 2 ''{}'' =
     Error ''boom'' \<and>
   fetchCount (snd (reads cachedWorld [(2, JUndefined), (0, JNull), (2, JObj [])])) 2 ''{}'' = 1 \<and>
   cacheGet (clearAllCaches (snd (reads cachedWorld [(2, JUndefined), (0, JNull), (2, JObj [])])))
     2 ''{}'' = Init"
proof -
  have l: "0 < length (resourceRegistry cachedWorld)" "2 < length (resourceRegistry cachedWorld)"
    by (simp_all add: cachedWorld_def)
  have s: "cacheGet cachedWorld 0 ''{}'' = Completed 11" "cacheGet cachedWorld 2 ''{}'' = Error ''boom''"
    "cachePolicy (resourceRegistry cachedWorld ! 2) \<noteq> Some NoClear"
    "fetchCount cachedWorld 2 ''{}'' = 1"
    by (simp_all add: cachedWorld_def cacheGet_def fetchCount_def cacheKey_undefined)
  have o: "fst (reads cachedWorld [(2, JUndefined), (0, JNull), (2, JObj [])]) =
     [ThrowsError ''boom'', Returns 11, ThrowsError ''boom'']"
    by (simp add: cachedWorld_def unstable_useResource_def
        cacheKey_def orEmptyObject_def cacheGet_def split_beta)
  from read_completed_error[where v = 11 and rs = "[]", OF l(1) cacheKey_undefined surjective_pairing]
    read_completed_error[where e = "''boom''" and rs = "[(2, JUndefined), (0, JNull), (2, JObj [])]",
      OF l(2) cacheKey_undefined surjective_pairing]
  show ?thesis using s o by (simp del: reads.simps)
qed

subsection \<open>Invalidation\<close>

text \<open>Every operation keeps each listener once in its resource's set.\<close>

lemma list_all_update:
  assumes "list_all P xs" and "i < length xs \<Longrightarrow> P x"
  shows "list_all P (xs[i := x])"
  unfolding list_all_length
proof (intro allI impI)
  fix n assume "n < length (xs[i := x])"
  then show "P (xs[i := x] ! n)"
    using assms by (cases "n = i") (simp_all add: list_all_length)
qed

lemma wellFormed_initialWorld: "wellFormed initialWorld"
  by (simp add: wellFormed_def initialWorld_def)

lemma wellFormed_defineResource: "wellFormed w \<Longrightarrow> wellFormed (snd (defineResource policy w))"
  by (simp add: wellFormed_def defineResource_def)

lemma wellFormed_update:
  assumes "wellFormed w"
      and "r < length (resourceRegistry w) \<Longrightarrow> distinct (subcriptions res)"
  shows "wellFormed (w\<lparr>resourceRegistry := (resourceRegistry w)[r := res]\<rparr>)"
  using assms by (simp add: wellFormed_def list_all_update)

lemma wellFormed_nth:
  "wellFormed w \<Longrightarrow> r < length (resourceRegistry w) \<Longrightarrow>
   distinct (subcriptions (resourceRegistry w ! r))"
  by (simp add: wellFormed_def list_all_length)

lemma wellFormed_cacheSet: "wellFormed w \<Longrightarrow> wellFormed (cacheSet r key st w)"
  unfolding cacheSet_def by (rule wellFormed_update) (simp_all add: wellFormed_nth)

lemma wellFormed_subscribe: "wellFormed w \<Longrightarrow> wellFormed (subscribe r l w)"
  unfolding subscribe_def by (rule wellFormed_update) (simp_all add: wellFormed_nth)

lemma wellFormed_unsubscribe: "wellFormed w \<Longrightarrow> wellFormed (unsubscribe r l w)"
  unfolding unsubscribe_def
  by (rule wellFormed_update) (simp_all add: wellFormed_nth distinct_removeAll)

lemma wellFormed_clearAllCaches: "wellFormed w \<Longrightarrow> wellFormed (clearAllCaches w)"
  by (auto simp: wellFormed_def list_all_length)

lemma wellFormed_startFetch: "wellFormed w \<Longrightarrow> wellFormed (snd (startFetch r params k w))"
  by (simp add: wellFormed_def)

lemma wellFormed_read: "wellFormed w \<Longrightarrow> wellFormed (snd (unstable_useResource w r params))"
  by (auto simp: unstable_useResource_def split_beta wellFormed_cacheSet wellFormed_startFetch
      split: option.splits resourceState.splits)

lemma wellFormed_pending: "wellFormed w \<Longrightarrow> wellFormed (w\<lparr>pending := p\<rparr>)"
  by (simp add: wellFormed_def)

lemma wellFormed_settle: "wellFormed w \<Longrightarrow> wellFormed (settle h res w)"
  by (auto simp: settle_def wellFormed_cacheSet wellFormed_clearAllCaches wellFormed_pending
      split: option.splits continuation.splits settlement.splits)

lemma wellFormed_perform:
  "wellFormed w \<Longrightarrow> perform r params w = Some (h, w') \<Longrightarrow> wellFormed w'"
  by (auto simp: perform_def startFetch_def wellFormed_def split: option.splits)

text \<open>
  Claim C2. \<open>clearAllCaches\<close> keeps the registry's length, the earlier notifications and
  the fetch log. For a registered resource whose policy is not "no-clear" the cache is
  empty afterwards, its listeners are the same, and among the listeners called for it
  each of its listeners occurs exactly once and no other does. A "no-clear" resource is
  left as it is and none of its listeners is called.
\<close>

theorem clearAllCaches_spec:
  assumes "wellFormed w" and "i < length (resourceRegistry w)"
  shows "length (resourceRegistry (clearAllCaches w)) = length (resourceRegistry w) \<and>
     take (length (notifications w)) (notifications (clearAllCaches w)) = notifications w \<and>
     fetchCalls (clearAllCaches w) = fetchCalls w \<and>
     (cachePolicy (resourceRegistry w ! i) \<noteq> Some NoClear \<longrightarrow>
        cache (resourceRegistry (clearAllCaches w) ! i) = Map.empty \<and>
        subcriptions (resourceRegistry (clearAllCaches w) ! i) =
          subcriptions (resourceRegistry w ! i) \<and>
        (\<forall>l. count_list (drop (length (notifications w)) (notifications (clearAllCaches w))) (i, l) =
           (if l \<in> set (subcriptions (resourceRegistry w ! i)) then 1 else 0))) \<and>
     (cachePolicy (resourceRegistry w ! i) = Some NoClear \<longrightarrow>
        resourceRegistry (clearAllCaches w) ! i = resourceRegistry w ! i \<and>
        (\<forall>l. count_list (drop (length (notifications w)) (notifications (clearAllCaches w))) (i, l) = 0))"
  using clearAllCaches_called[OF assms] assms(2)
  by simp

theorem clearAllCaches_spec_witness:
  "wellFormed cachedWorld \<and>
   cache (resourceRegistry (clearAllCaches cachedWorld) ! 0) = Map.empty \<and>
   notifications (clearAllCaches cachedWorld) = [(0, 5), (0, 6)] \<and>
   count_list (notifications (clearAllCaches cachedWorld)) (0, 5) = 1 \<and>
   count_list (notifications (clearAllCaches cachedWorld)) (0, 6) = 1 \<and>
   resourceRegistry (clearAllCaches cachedWorld) ! 1 = resourceRegistry cachedWorld ! 1 \<and>
   cache (resourceRegistry (clearAllCaches cachedWorld) ! 1) ''{}'' = Some (Completed 22) \<and>
   count_list (notifications (clearAllCaches cachedWorld)) (1, 7) = 0"
proof -
  have l: "0 < length (resourceRegistry cachedWorld)" "1 < length (resourceRegistry cachedWorld)"
    by (simp_all add: cachedWorld_def)
  from clearAllCaches_spec[OF wellFormed_cachedWorld l(1)]
    clearAllCaches_spec[OF wellFormed_cachedWorld l(2)] wellFormed_cachedWorld
  show ?thesis by (simp add: cachedWorld_def clearAllCaches_def)
qed

subsection \<open>Mutations\<close>

text \<open>
  Claim C3. \<open>perform\<close> calls the fetch function whatever the caches hold: it returns a
  fresh handle, logs the call and leaves registry and notifications alone. When that
  promise is fulfilled, the world in which the caller's promise resolves is the one
  \<open>clearAllCaches\<close> leaves: the fetch log is the same, every resource that is not
  "no-clear" has an empty cache and each of its listeners has been called. When the promise
  is rejected, registry, notifications and fetch log stay as they were.
\<close>

theorem perform_spec:
  fixes w w2 :: "('v, 'e) world"
  shows "(\<exists>w1. perform r params w = Some (nextHandle w, w1) \<and>
            fetchCalls w1 = fetchCalls w @ [(r, params)] \<and>
            resourceRegistry w1 = resourceRegistry w \<and>
            notifications w1 = notifications w \<and>
            pending w1 (nextHandle w) = Some PerformCont) \<and>
     (pending w2 h = Some PerformCont \<longrightarrow>
        settle h (Fulfilled v) w2 = clearAllCaches (w2\<lparr>pending := (pending w2)(h := None)\<rparr>) \<and>
        fetchCalls (settle h (Fulfilled v) w2) = fetchCalls w2 \<and>
        (\<forall>i<length (resourceRegistry w2).
            cachePolicy (resourceRegistry w2 ! i) \<noteq> Some NoClear \<longrightarrow>
              cache (resourceRegistry (settle h (Fulfilled v) w2) ! i) = Map.empty \<and>
              (\<forall>l\<in>set (subcriptions (resourceRegistry w2 ! i)).
                 (i, l) \<in> set (drop (length (notifications w2))
                                (notifications (settle h (Fulfilled v) w2))))) \<and>
        resourceRegistry (settle h (Rejected e) w2) = resourceRegistry w2 \<and>
        notifications (settle h (Rejected e) w2) = notifications w2 \<and>
        fetchCalls (settle h (Rejected e) w2) = fetchCalls w2)"
proof (intro conjI impI)
  obtain key where "cacheKey params = Some key" using cacheKey_total by blast
  then show "\<exists>w1. perform r params w = Some (nextHandle w, w1) \<and>
            fetchCalls w1 = fetchCalls w @ [(r, params)] \<and>
            resourceRegistry w1 = resourceRegistry w \<and>
            notifications w1 = notifications w \<and>
            pending w1 (nextHandle w) = Some PerformCont"
    by (simp add: perform_def startFetch_def)
next
  assume p: "pending w2 h = Some PerformCont"
  let ?w = "w2\<lparr>pending := (pending w2)(h := None)\<rparr>"
  show s: "settle h (Fulfilled v) w2 = clearAllCaches ?w"
    using p by (simp add: settle_def)
  show "fetchCalls (settle h (Fulfilled v) w2) = fetchCalls w2" by (simp add: s)
  show "\<forall>i<length (resourceRegistry w2).
            cachePolicy (resourceRegistry w2 ! i) \<noteq> Some NoClear \<longrightarrow>
              cache (resourceRegistry (settle h (Fulfilled v) w2) ! i) = Map.empty \<and>
              (\<forall>l\<in>set (subcriptions (resourceRegistry w2 ! i)).
                 (i, l) \<in> set (drop (length (notifications w2))
                                (notifications (settle h (Fulfilled v) w2))))"
  proof (intro allI impI conjI ballI)
    fix i assume i: "i < length (resourceRegistry w2)"
      and np: "cachePolicy (resourceRegistry w2 ! i) \<noteq> Some NoClear"
    show "cache (resourceRegistry (settle h (Fulfilled v) w2) ! i) = Map.empty"
      using i np by (simp add: s)
    fix l assume l: "l \<in> set (subcriptions (resourceRegistry w2 ! i))"
    have "count_list (snd (clearFrom 0 (resourceRegistry w2))) (i, l) =
        count_list (subcriptions (resourceRegistry w2 ! i)) l"
      using i np by (simp add: clearFrom_count)
    moreover have "count_list (subcriptions (resourceRegistry w2 ! i)) l \<noteq> 0"
      using l by (simp add: count_list_0_iff)
    ultimately have "(i, l) \<in> set (snd (clearFrom 0 (resourceRegistry w2)))"
      using count_list_0_iff[of "snd (clearFrom 0 (resourceRegistry w2))" "(i, l)"] by auto
    then show "(i, l) \<in> set (drop (length (notifications w2))
                                (notifications (settle h (Fulfilled v) w2)))"
      by (simp add: s)
  qed
  show "resourceRegistry (settle h (Rejected e) w2) = resourceRegistry w2"
    using p by (simp add: settle_def)
  show "notifications (settle h (Rejected e) w2) = notifications w2"
    using p by (simp add: settle_def)
  show "fetchCalls (settle h (Rejected e) w2) = fetchCalls w2"
    using p by (simp add: settle_def)
qed

theorem perform_spec_witness:
  "perform 3 paramsAB cachedWorld = Some (3, snd (startFetch 3 paramsAB PerformCont cachedWorld)) \<and>
   fetchCalls (snd (startFetch 3 paramsAB PerformCont cachedWorld)) =
     fetchCalls cachedWorld @ [(3, paramsAB)] \<and>
   cacheGet (snd (startFetch 3 paramsAB PerformCont cachedWorld)) 0 ''{}'' = Completed 11 \<and>
   cacheGet (settle 3 (Fulfilled 1) (snd (startFetch 3 paramsAB PerformCont cachedWorld))) 0 ''{}'' = Init \<and>
   cacheGet (settle 3 (Fulfilled 1) (snd (startFetch 3 paramsAB PerformCont cachedWorld))) 1 ''{}'' =
     Completed 22 \<and>
   notifications (settle 3 (Fulfilled 1) (snd (startFetch 3 paramsAB PerformCont cachedWorld))) =
     [(0, 5), (0, 6)] \<and>
   resourceRegistry (settle 3 (Rejected ''no'') (snd (startFetch 3 paramsAB PerformCont cachedWorld))) =
     resourceRegistry cachedWorld \<and>
   notifications (settle 3 (Rejected ''no'') (snd (startFetch 3 paramsAB PerformCont cachedWorld))) = []"
proof -
  let ?w1 = "snd (startFetch 3 paramsAB PerformCont cachedWorld)"
  have p: "pending ?w1 3 = Some PerformCont" "nextHandle cachedWorld = 3"
    by (simp_all add: cachedWorld_def)
  have k: "cacheKey paramsAB \<noteq> None" using cacheKey_total[of paramsAB] by auto
  have c: "clearAllCaches (?w1\<lparr>pending := (pending ?w1)(3 := None)\<rparr>) =
      \<lparr>resourceRegistry =
        [\<lparr>cachePolicy = None, cache = Map.empty, subcriptions = [5, 6]\<rparr>,
         \<lparr>cachePolicy = Some NoClear, cache = [''{}'' \<mapsto> Completed 22], subcriptions = [7]\<rparr>,
         \<lparr>cachePolicy = Some Regular, cache = Map.empty, subcriptions = []\<rparr>,
         \<lparr>cachePolicy = None, cache = Map.empty, subcriptions = []\<rparr>],
      pending = Map.empty, nextHandle = 4,
      fetchCalls = [(0, JUndefined), (1, JUndefined), (2, JUndefined), (3, paramsAB)],
      notifications = [(0, 5), (0, 6)]\<rparr>"
    by (simp add: cachedWorld_def clearAllCaches_def startFetch_def)
  note t = perform_spec[of 3 paramsAB cachedWorld ?w1 3 1 "''no''"]
  from t p(1) have s: "settle 3 (Fulfilled 1) ?w1 = clearAllCaches (?w1\<lparr>pending := (pending ?w1)(3 := None)\<rparr>)"
    by simp
  from t p(1) have rj: "resourceRegistry (settle 3 (Rejected ''no'') ?w1) = resourceRegistry ?w1"
    "notifications (settle 3 (Rejected ''no'') ?w1) = notifications ?w1"
    by simp_all
  from t obtain w1 where pf: "perform 3 paramsAB cachedWorld = Some (nextHandle cachedWorld, w1)"
    by blast
  have pf': "perform 3 paramsAB cachedWorld = Some (3, ?w1)"
    using pf k by (auto simp: perform_def p(2))
  have cw: "cacheGet ?w1 0 ''{}'' = Completed 11" "notifications cachedWorld = []"
    by (simp_all add: cachedWorld_def cacheGet_def)
  show ?thesis unfolding s c using pf' rj cw by (simp add: cacheGet_def)
qed

subsection \<open>Reads of a key in flight\<close>

lemma cacheGet_cacheSet_ne:
  assumes "r < length (resourceRegistry w)" "\<not> (r' = r \<and> k' = key)"
  shows "cacheGet (cacheSet r' k' st w) r key = cacheGet w r key"
proof (cases "r' < length (resourceRegistry w)")
  case True
  then show ?thesis using assms(2) by (auto simp: cacheGet_cacheSet)
next
  case False
  then show ?thesis by (simp add: cacheGet_def cacheSet_def list_update_beyond)
qed

lemma cacheGet_pending_update [simp]: "cacheGet (w\<lparr>pending := p\<rparr>) r key = cacheGet w r key"
  by (simp add: cacheGet_def)

lemma fetchCount_pending_update [simp]: "fetchCount (w\<lparr>pending := p\<rparr>) r key = fetchCount w r key"
  by (simp add: fetchCount_def)

lemma fetchCount_cacheSet [simp]: "fetchCount (cacheSet r' k st w) r key = fetchCount w r key"
  by (simp add: fetchCount_def)

lemma cacheGet_subcriptions_update:
  "cacheGet (w\<lparr>resourceRegistry := (resourceRegistry w)
       [r' := (resourceRegistry w ! r')\<lparr>subcriptions := ls\<rparr>]\<rparr>) r key = cacheGet w r key"
proof (cases "r' < length (resourceRegistry w)")
  case True
  then show ?thesis by (cases "r = r'") (simp_all add: cacheGet_def)
next
  case False
  then show ?thesis by (simp add: cacheGet_def list_update_beyond)
qed

lemma step_keeps_state:
  assumes r: "r < length (resourceRegistry w)"
      and st: "cacheGet w r key = st" "st \<noteq> Init"
      and nd: "\<not> disturbs w r key ev"
  shows "r < length (resourceRegistry (step w ev)) \<and> cacheGet (step w ev) r key = st \<and>
         fetchCount (step w ev) r key = fetchCount w r key"
proof (cases ev)
  case (Read r' p')
  from read_keeps_state[OF r st surjective_pairing, of r' p'] r show ?thesis
    by (simp add: Read)
next
  case (Subscribe r' l)
  then show ?thesis using r st
    by (simp add: subscribe_def cacheGet_subcriptions_update fetchCount_def)
next
  case (Unsubscribe r' l)
  then show ?thesis using r st
    by (simp add: unsubscribe_def cacheGet_subcriptions_update fetchCount_def)
next
  case (Define policy)
  then show ?thesis using r st
    by (simp add: defineResource_def cacheGet_def fetchCount_def nth_append)
next
  case (Perform r' p')
  obtain k where k: "cacheKey p' = Some k" using cacheKey_total by blast
  have "\<not> (r' = r \<and> cacheKey p' = Some key)" using nd Perform by simp
  then show ?thesis using r st k
    by (auto simp: Perform perform_def fetchCount_def split_beta)
next
  case (Settle h res)
  show ?thesis
  proof (cases "pending w h")
    case None
    then show ?thesis using r st by (simp add: Settle settle_def)
  next
    case (Some c)
    show ?thesis
    proof (cases c)
      case (ReadCont r' k')
      then have ne: "\<not> (r' = r \<and> k' = key)" using nd Settle Some by simp
      have r': "r < length (resourceRegistry (w\<lparr>pending := (pending w)(h := None)\<rparr>))"
        using r by simp
      show ?thesis using r st Some ReadCont cacheGet_cacheSet_ne[OF r' ne]
        by (cases res) (simp_all add: Settle settle_def)
    next
      case PerformCont
      show ?thesis
      proof (cases res)
        case (Fulfilled v)
        then have "cachePolicy (resourceRegistry w ! r) = Some NoClear"
          using nd Settle Some PerformCont by simp
        then show ?thesis using r st Some PerformCont Fulfilled
          by (simp add: Settle settle_def cacheGet_clearAllCaches fetchCount_def)
      next
        case (Rejected e)
        then show ?thesis using r st Some PerformCont by (simp add: Settle settle_def)
      qed
    qed
  qed
next
  case ClearAllCaches
  then have "cachePolicy (resourceRegistry w ! r) = Some NoClear" using nd by simp
  then show ?thesis using r st ClearAllCaches
    by (simp add: cacheGet_clearAllCaches fetchCount_def)
qed

lemma run_append: "run w (xs @ ys) = run (run w xs) ys"
  by (induction xs arbitrary: w) simp_all

lemma undisturbed_take: "undisturbed w r key evs \<Longrightarrow> undisturbed w r key (take i evs)"
proof (induction evs arbitrary: w i)
  case Nil
  then show ?case by simp
next
  case (Cons ev evs)
  then show ?case by (cases i) simp_all
qed

lemma run_keeps_state:
  assumes "r < length (resourceRegistry w)" "cacheGet w r key = st" "st \<noteq> Init"
      and "undisturbed w r key evs"
  shows "r < length (resourceRegistry (run w evs)) \<and> cacheGet (run w evs) r key = st \<and>
         fetchCount (run w evs) r key = fetchCount w r key"
  using assms
proof (induction evs arbitrary: w)
  case Nil
  then show ?case by simp
next
  case (Cons ev evs)
  from Cons.prems(4) have nd: "\<not> disturbs w r key ev" and u: "undisturbed (step w ev) r key evs"
    by simp_all
  note k = step_keeps_state[OF Cons.prems(1,2,3) nd]
  from k have a: "r < length (resourceRegistry (step w ev))" "cacheGet (step w ev) r key = st"
    by simp_all
  from Cons.IH[OF a Cons.prems(3) u] k show ?case by simp
qed

text \<open>
  Claim C1, as amended. A read that finds its key in state \<open>Init\<close> calls the fetch
  function, records \<open>InProgress\<close> with the handle of the promise and throws that promise.
  In whatever events follow, as long as none clears the caches of the resource, none
  settles a fetch started by a read of this key (this fetch or an earlier one), and none
  is a \<^verbatim>\<open>perform\<close> on this resource and key, each read of this resource and key throws
  the same promise and leaves the world as it is, the key stays \<open>InProgress\<close>, and the
  fetch function has been called for this resource and key exactly once more than before
  the first read.
\<close>

theorem read_dedup:
  assumes "r < length (resourceRegistry w)"
      and "cacheKey params = Some key"
      and "cacheGet w r key = Init"
      and "unstable_useResource w r params = (out, w1)"
      and "undisturbed w1 r key evs"
  shows "out = ThrowsPromise (nextHandle w) \<and>
         fetchCalls w1 = fetchCalls w @ [(r, params)] \<and>
         cacheGet w1 r key = InProgress (nextHandle w) \<and>
         (\<forall>i<length evs. \<forall>params'.
            evs ! i = Read r params' \<and> cacheKey params' = Some key \<longrightarrow>
              unstable_useResource (run w1 (take i evs)) r params' =
                (ThrowsPromise (nextHandle w), run w1 (take i evs))) \<and>
         cacheGet (run w1 evs) r key = InProgress (nextHandle w) \<and>
         fetchCount (run w1 evs) r key = Suc (fetchCount w r key)"
proof -
  let ?h = "nextHandle w"
  from read_Init[OF assms(2,3)] assms(4)
  have out: "out = ThrowsPromise ?h"
    and w1: "w1 = cacheSet r key (InProgress ?h) (snd (startFetch r params (ReadCont r key) w))"
    by simp_all
  have len1: "r < length (resourceRegistry w1)" using assms(1) by (simp add: w1)
  have st1: "cacheGet w1 r key = InProgress ?h" using assms(1) by (simp add: w1 cacheGet_cacheSet)
  have fc1: "fetchCalls w1 = fetchCalls w @ [(r, params)]" by (simp add: w1)
  have cnt1: "fetchCount w1 r key = Suc (fetchCount w r key)"
    using fetchCount_append[OF fc1, of r key] assms(2) by simp
  have ne: "(InProgress ?h :: ('a, 'b) resourceState) \<noteq> Init" by simp
  note e = run_keeps_state[OF len1 st1 ne assms(5)]
  have rd: "\<forall>i<length evs. \<forall>params'.
            evs ! i = Read r params' \<and> cacheKey params' = Some key \<longrightarrow>
              unstable_useResource (run w1 (take i evs)) r params' =
                (ThrowsPromise ?h, run w1 (take i evs))"
  proof (intro allI impI)
    fix i params'
    assume "i < length evs" and a: "evs ! i = Read r params' \<and> cacheKey params' = Some key"
    from run_keeps_state[OF len1 st1 ne undisturbed_take[OF assms(5), of i]]
    have "cacheGet (run w1 (take i evs)) r key = InProgress ?h" by simp
    from read_settled[OF _ this ne, of params'] a
    show "unstable_useResource (run w1 (take i evs)) r params' =
                (ThrowsPromise ?h, run w1 (take i evs))"
      by (simp add: outcomeOf_def)
  qed
  show ?thesis using out fc1 st1 rd e cnt1 by simp
qed

theorem read_dedup_witness:
  "undisturbed (snd (unstable_useResource exampleWorld 0 JUndefined)) 0 ''{}'' exampleEvents \<and>
   fst (unstable_useResource exampleWorld 0 JUndefined) = ThrowsPromise 0 \<and>
   unstable_useResource
     (run (snd (unstable_useResource exampleWorld 0 JUndefined)) (take 0 exampleEvents))
     0 JUndefined =
     (ThrowsPromise 0,
      run (snd (unstable_useResource exampleWorld 0 JUndefined)) (take 0 exampleEvents)) \<and>
   unstable_useResource
     (run (snd (unstable_useResource exampleWorld 0 JUndefined)) (take 5 exampleEvents))
     0 (JObj []) =
     (ThrowsPromise 0,
      run (snd (unstable_useResource exampleWorld 0 JUndefined)) (take 5 exampleEvents)) \<and>
   fetchCount (run (snd (unstable_useResource exampleWorld 0 JUndefined)) exampleEvents)
     0 ''{}'' = 1"
proof -
  let ?w1 = "snd (unstable_useResource exampleWorld 0 JUndefined)"
  have a: "0 < length (resourceRegistry exampleWorld)"
    by (simp add: exampleWorld_def defineResource_def initialWorld_def)
  have c: "cacheGet exampleWorld 0 ''{}'' = Init"
    by (simp add: exampleWorld_def defineResource_def initialWorld_def cacheGet_def)
  have n: "nextHandle exampleWorld = 0" "fetchCount exampleWorld 0 ''{}'' = 0"
    by (simp_all add: exampleWorld_def defineResource_def initialWorld_def fetchCount_def)
  have k: "cacheKey JNull = Some ''{}''" by (simp add: cacheKey_def orEmptyObject_def)
  have u: "undisturbed ?w1 0 ''{}'' exampleEvents"
    by (simp add: exampleEvents_def exampleWorld_def defineResource_def initialWorld_def
        unstable_useResource_def cacheKey_undefined cacheKey_empty k cacheGet_def cacheSet_def
        startFetch_def settle_def subscribe_def perform_def split_beta)
  note t = read_dedup[OF a cacheKey_undefined c surjective_pairing u]
  have l: "length exampleEvents = 6" "exampleEvents ! 0 = Read 0 JUndefined"
    "exampleEvents ! 5 = Read 0 (JObj [])"
    by (simp_all add: exampleEvents_def)
  from t have r: "\<forall>i<length exampleEvents. \<forall>params'.
            exampleEvents ! i = Read 0 params' \<and> cacheKey params' = Some ''{}'' \<longrightarrow>
              unstable_useResource (run ?w1 (take i exampleEvents)) 0 params' =
                (ThrowsPromise (nextHandle exampleWorld), run ?w1 (take i exampleEvents))"
    by (elim conjE)
  from r[rule_format, of 0 JUndefined] r[rule_format, of 5 "JObj []"] t u
  show ?thesis unfolding n l by (simp add: cacheKey_undefined cacheKey_empty del: run.simps take_0)
qed

text \<open>
  As stated, C1 fails: before the fetch settles, \<^verbatim>\<open>clearAllCaches\<close> drops the entry in
  progress, and the next read of the same key calls the fetch function again and throws a
  second promise while the first is still pending.
\<close>

theorem inflight_invalidation_counterexample:
  "fst (unstable_useResource exampleWorld 0 JUndefined) = ThrowsPromise 0 \<and>
   fst (unstable_useResource
          (clearAllCaches (snd (unstable_useResource exampleWorld 0 JUndefined))) 0 JUndefined) =
     ThrowsPromise 1 \<and>
   pending (snd (unstable_useResource
          (clearAllCaches (snd (unstable_useResource exampleWorld 0 JUndefined))) 0 JUndefined)) 0 =
     Some (ReadCont 0 ''{}'') \<and>
   pending (snd (unstable_useResource
          (clearAllCaches (snd (unstable_useResource exampleWorld 0 JUndefined))) 0 JUndefined)) 1 =
     Some (ReadCont 0 ''{}'') \<and>
   fetchCount (snd (unstable_useResource
          (clearAllCaches (snd (unstable_useResource exampleWorld 0 JUndefined))) 0 JUndefined))
     0 ''{}'' = 2"
  by (simp add: exampleWorld_def defineResource_def initialWorld_def unstable_useResource_def
      cacheKey_undefined cacheGet_def cacheSet_def startFetch_def clearAllCaches_def fetchCount_def
      split_beta)

subsection \<open>A fetch that settles after an invalidation\<close>

text \<open>
  Claim C10. A read of an \<open>Init\<close> key of a resource that is not "no-clear" starts a
  fetch; \<open>clearAllCaches\<close> then empties the cache (the key reads \<open>Init\<close> again); when the
  fetch settles afterwards, its result is written into the cache all the same, and the
  next read of the key returns that value (or throws that error) without a call of the
  fetch function.
\<close>

theorem settlement_after_invalidation:
  assumes "r < length (resourceRegistry w)"
      and "cachePolicy (resourceRegistry w ! r) \<noteq> Some NoClear"
      and "cacheKey params = Some key"
      and "cacheGet w r key = Init"
      and "unstable_useResource w r params = (out, w1)"
      and "w2 = clearAllCaches w1"
      and "w3 = settle (nextHandle w) res w2"
  shows "out = ThrowsPromise (nextHandle w) \<and>
         cacheGet w1 r key = InProgress (nextHandle w) \<and>
         cacheGet w2 r key = Init \<and>
         cacheGet w3 r key = (case res of Fulfilled v \<Rightarrow> Completed v | Rejected e \<Rightarrow> Error e) \<and>
         unstable_useResource w3 r params =
           (case res of Fulfilled v \<Rightarrow> Returns v | Rejected e \<Rightarrow> ThrowsError e, w3) \<and>
         fetchCount w3 r key = fetchCount w1 r key"
proof -
  let ?h = "nextHandle w"
  from read_Init[OF assms(3,4)] assms(5)
  have out: "out = ThrowsPromise ?h"
    and w1: "w1 = cacheSet r key (InProgress ?h) (snd (startFetch r params (ReadCont r key) w))"
    by simp_all
  have len1: "r < length (resourceRegistry w1)" using assms(1) by (simp add: w1)
  have st1: "cacheGet w1 r key = InProgress ?h" using assms(1) by (simp add: w1 cacheGet_cacheSet)
  have pol1: "cachePolicy (resourceRegistry w1 ! r) \<noteq> Some NoClear" using assms(2) by (simp add: w1)
  have st2: "cacheGet w2 r key = Init"
    using cacheGet_clearAllCaches[OF len1] pol1 by (simp add: assms(6))
  have p2: "pending w2 ?h = Some (ReadCont r key)" by (simp add: assms(6) w1)
  have len2: "r < length (resourceRegistry w2)" using len1 by (simp add: assms(6))
  let ?st = "case res of Fulfilled v \<Rightarrow> Completed v | Rejected e \<Rightarrow> Error e"
  have w3: "w3 = cacheSet r key ?st (w2\<lparr>pending := (pending w2)(?h := None)\<rparr>)"
    using p2 by (cases res) (simp_all add: assms(7) settle_def)
  have st3: "cacheGet w3 r key = ?st"
    using len2 by (simp add: w3 cacheGet_cacheSet)
  have ne: "?st \<noteq> Init" by (cases res) simp_all
  have rd: "unstable_useResource w3 r params =
           (case res of Fulfilled v \<Rightarrow> Returns v | Rejected e \<Rightarrow> ThrowsError e, w3)"
    using read_settled[OF assms(3) st3 ne] by (cases res) (simp_all add: outcomeOf_def)
  have fc: "fetchCount w3 r key = fetchCount w1 r key"
    by (simp add: w3 assms(6) fetchCount_def)
  show ?thesis using out st1 st2 st3 rd fc by simp
qed


theorem settlement_after_invalidation_witness:
  "fst (unstable_useResource exampleWorld 0 JUndefined) = ThrowsPromise 0 \<and>
   cacheGet (clearAllCaches (snd (unstable_useResource exampleWorld 0 JUndefined))) 0 ''{}'' = Init \<and>
   unstable_useResource
     (settle 0 (Fulfilled 9) (clearAllCaches (snd (unstable_useResource exampleWorld 0 JUndefined))))
     0 JUndefined =
     (Returns 9,
      settle 0 (Fulfilled 9) (clearAllCaches (snd (unstable_useResource exampleWorld 0 JUndefined)))) \<and>
   fetchCount
     (settle 0 (Fulfilled 9) (clearAllCaches (snd (unstable_useResource exampleWorld 0 JUndefined))))
     0 ''{}'' = 1"
proof -
  have a: "0 < length (resourceRegistry exampleWorld)"
    "cachePolicy (resourceRegistry exampleWorld ! 0) \<noteq> Some NoClear"
    "cacheGet exampleWorld 0 ''{}'' = Init"
    by (simp_all add: exampleWorld_def defineResource_def initialWorld_def cacheGet_def)
  have n: "nextHandle exampleWorld = 0" "fetchCalls exampleWorld = []"
    by (simp_all add: exampleWorld_def defineResource_def initialWorld_def)
  have f: "fetchCount (snd (unstable_useResource exampleWorld 0 JUndefined)) 0 ''{}'' = 1"
    using read_Init[OF cacheKey_undefined a(3)] by (simp add: fetchCount_def n cacheKey_undefined)
  from settlement_after_invalidation[OF a(1,2) cacheKey_undefined a(3) surjective_pairing refl refl,
      of "Fulfilled 9"]
  show ?thesis using f by (simp add: n)
qed

subsection \<open>The cache key\<close>

text \<open>
  Claim C9, as amended. The cache key is \<^verbatim>\<open>JSON.stringify(params || {})\<close>, which prints
  the properties of an object in their own order. Two params values with the same
  serialization share a cache entry: they are in the same state, a read of either does
  the same and leaves the same caches. Undefined params, and any other falsy params,
  have the key of the empty object.
\<close>

theorem cacheKey_entry:
  assumes "cacheKey p1 = cacheKey p2"
  shows "resourceState w r p1 = resourceState w r p2 \<and>
     fst (unstable_useResource w r p1) = fst (unstable_useResource w r p2) \<and>
     resourceRegistry (snd (unstable_useResource w r p1)) =
       resourceRegistry (snd (unstable_useResource w r p2)) \<and>
     cacheKey JUndefined = Some ''{}'' \<and>
     (\<not> truthy p1 \<longrightarrow> cacheKey p1 = Some ''{}'')"
proof -
  obtain key where k: "cacheKey p2 = Some key" using cacheKey_total by blast
  have "fst (unstable_useResource w r p1) = fst (unstable_useResource w r p2)"
    using assms k by (cases "cacheGet w r key") (simp_all add: unstable_useResource_def split_beta)
  moreover have "resourceRegistry (snd (unstable_useResource w r p1)) =
       resourceRegistry (snd (unstable_useResource w r p2))"
    using assms k
    by (cases "cacheGet w r key") (simp_all add: unstable_useResource_def split_beta cacheSet_def)
  ultimately show ?thesis
    using assms by (simp add: resourceState_def cacheKey_def orEmptyObject_def)
qed

theorem cacheKey_entry_witness:
  "JUndefined \<noteq> JObj [] \<and> cacheKey JUndefined = cacheKey (JObj []) \<and>
   fst (unstable_useResource cachedWorld 0 JUndefined) = Returns 11 \<and>
   fst (unstable_useResource cachedWorld 0 (JObj [])) = Returns 11 \<and>
   cacheKey JNull = Some ''{}''"
proof -
  have e: "cacheKey JUndefined = cacheKey (JObj [])"
    by (simp add: cacheKey_undefined cacheKey_empty)
  have r: "fst (unstable_useResource cachedWorld 0 JUndefined) = Returns 11"
    by (simp add: unstable_useResource_def cacheKey_undefined cacheGet_def cachedWorld_def)
  from cacheKey_entry[OF e, of cachedWorld 0] cacheKey_entry[of JNull JNull]
  show ?thesis using e r by simp
qed

text \<open>
  As stated, C9 fails: two objects with the same properties inserted in different orders
  have different keys, and a read of the second starts a fetch although the first is
  cached.
\<close>

theorem cacheKey_order_counterexample:
  "set [(''a'', JNum 1), (''b'', JNum 2)] = set [(''b'', JNum 2), (''a'', JNum 1)] \<and>
   cacheKey paramsAB \<noteq> cacheKey paramsBA \<and>
   fst (unstable_useResource worldAB 0 paramsAB) = Returns 5 \<and>
   fst (unstable_useResource worldAB 0 paramsBA) = ThrowsPromise 1 \<and>
   fetchCalls (snd (unstable_useResource worldAB 0 paramsBA)) = [(0, paramsAB), (0, paramsBA)]"
proof -
  have k: "cacheKey paramsAB = Some ([CHR ''{'', CHR 0x22, CHR ''a'', CHR 0x22] @ '':1,'' @ [CHR 0x22, CHR ''b'', CHR 0x22] @ '':2}'')"
     "cacheKey paramsBA = Some ([CHR ''{'', CHR 0x22, CHR ''b'', CHR 0x22] @ '':2,'' @ [CHR 0x22, CHR ''a'', CHR 0x22] @ '':1}'')"
    by (simp_all add: paramsAB_def paramsBA_def cacheKey_def orEmptyObject_def quoteJSONString_def
        quoteChar_def numberToString_def hexDigit_def)
  show ?thesis
    by (auto simp: k worldAB_def exampleWorld_def defineResource_def initialWorld_def
        unstable_useResource_def cacheGet_def cacheSet_def startFetch_def settle_def split_beta)
qed

section \<open>Properties of query synthesis\<close>

subsection \<open>Maps and objects in key order\<close>

lemma mapSet_keys:
  "map fst (mapSet k v m) = (if k \<in> set (map fst m) then map fst m else map fst m @ [k])"
  by (induction m) force+

lemma mapSet_map_of: "map_of (mapSet k v m) = (map_of m)(k \<mapsto> v)"
  by (induction m) (auto simp: fun_eq_iff)

lemma mapSet_set: "set (mapSet k v m) \<subseteq> insert (k, v) (set m)"
  by (induction m) (auto split: if_splits)

lemma mapSet_distinct: "distinct (map fst m) \<Longrightarrow> distinct (map fst (mapSet k v m))"
  by (simp add: mapSet_keys)

lemma scalar_fold_keys:
  "map fst (foldl (\<lambda>m f. mapSet (field_name f) (mk f) m) m0 fs) =
     map fst m0 @ filter (\<lambda>k. k \<notin> set (map fst m0)) (firstOccurrences (map field_name fs))"
proof (induction fs arbitrary: m0)
  case Nil
  then show ?case by simp
next
  case (Cons f fs)
  show ?case
  proof (cases "field_name f \<in> set (map fst m0)")
    case True
    then have "filter (\<lambda>k. k \<notin> set (map fst m0)) (filter (\<lambda>y. y \<noteq> field_name f) (firstOccurrences (map field_name fs)))
       = filter (\<lambda>k. k \<notin> set (map fst m0)) (firstOccurrences (map field_name fs))"
      by (auto simp: filter_filter intro: filter_cong)
    then show ?thesis using True by (simp add: Cons.IH mapSet_keys)
  next
    case False
    have "filter (\<lambda>k. k \<notin> set (map fst m0)) (filter (\<lambda>y. y \<noteq> field_name f) (firstOccurrences (map field_name fs)))
       = filter (\<lambda>k. k \<noteq> field_name f \<and> k \<notin> set (map fst m0)) (firstOccurrences (map field_name fs))"
      by (auto simp: filter_filter intro: filter_cong)
    then show ?thesis using False by (simp add: Cons.IH mapSet_keys)
  qed
qed

lemma scalar_fold_entries:
  "\<forall>(k, s)\<in>set m0. s = mk' k \<Longrightarrow> (\<And>f. mk f = mk' (field_name f)) \<Longrightarrow>
   \<forall>(k, s)\<in>set (foldl (\<lambda>m f. mapSet (field_name f) (mk f) m) m0 fs). s = mk' k"
proof (induction fs arbitrary: m0)
  case Nil
  then show ?case by simp
next
  case (Cons f fs)
  have "\<forall>(k, s)\<in>set (mapSet (field_name f) (mk f) m0). s = mk' k"
    using Cons.prems mapSet_set[of "field_name f" "mk f" m0] by auto
  from Cons.IH[OF this Cons.prems(2)] show ?case by simp
qed

lemma scalar_fold_distinct:
  "distinct (map fst m0) \<Longrightarrow> distinct (map fst (foldl (\<lambda>m f. mapSet (field_name f) (mk f) m) m0 fs))"
  by (induction fs arbitrary: m0) (simp_all add: mapSet_distinct)

lemma scalarSpecsMap_keys:
  "map fst (scalarSpecsMap g fs) = firstOccurrences (map field_name fs)"
  unfolding scalarSpecsMap_def by (simp add: scalar_fold_keys)

lemma scalarSpecsMap_entries:
  "(k, s) \<in> set (scalarSpecsMap g fs) \<Longrightarrow> s = \<lparr>title = g k, require = QueryFieldSpec k None\<rparr>"
  using scalar_fold_entries[of "[]" "\<lambda>k. \<lparr>title = g k, require = QueryFieldSpec k None\<rparr>"
      "\<lambda>f. \<lparr>title = g (field_name f), require = QueryFieldSpec (field_name f) None\<rparr>" fs]
  unfolding scalarSpecsMap_def by auto

lemma scalarSpecsMap_distinct: "distinct (map fst (scalarSpecsMap g fs))"
  unfolding scalarSpecsMap_def by (simp add: scalar_fold_distinct)

lemma set_firstOccurrences [simp]: "set (firstOccurrences xs) = set xs"
  by (induction xs) auto

lemma distinct_firstOccurrences [simp]: "distinct (firstOccurrences xs)"
  by (induction xs) auto

lemma firstOccurrences_distinct: "distinct xs \<Longrightarrow> firstOccurrences xs = xs"
  by (induction xs) (auto intro: filter_True)

lemma objSet_new: "plainKey k \<Longrightarrow> k \<notin> set (map fst obj) \<Longrightarrow> objSet k v obj = obj @ [(k, v)]"
  by (simp add: objSet_def plainKey_def)

lemma commonNamesLoop_result:
  assumes "distinct names" "set names \<inter> set (map fst fs) = {}" "\<forall>n\<in>set names. plainKey n"
  shows "commonNamesLoop m names (fs, seen) =
     (fs @ map (\<lambda>n. (n, the (map_of m n))) (filter (\<lambda>n. map_of m n \<noteq> None) names),
      seen @ filter (\<lambda>n. map_of m n \<noteq> None) names)"
  using assms
proof (induction names arbitrary: fs seen)
  case Nil
  then show ?case by (simp add: commonNamesLoop_def)
next
  case (Cons n names)
  show ?case
  proof (cases "map_of m n")
    case None
    have "commonNamesLoop m (n # names) (fs, seen) = commonNamesLoop m names (fs, seen)"
      using None by (simp add: commonNamesLoop_def)
    moreover have "distinct names" "set names \<inter> set (map fst fs) = {}" "\<forall>n\<in>set names. plainKey n"
      using Cons.prems by auto
    ultimately show ?thesis using Cons.IH[of fs seen] None by simp
  next
    case (Some s)
    have n: "plainKey n" "n \<notin> set (map fst fs)" using Cons.prems by auto
    have "commonNamesLoop m (n # names) (fs, seen) = commonNamesLoop m names (fs @ [(n, s)], seen @ [n])"
      using Some by (simp add: commonNamesLoop_def objSet_new[OF n])
    moreover have "distinct names" "set names \<inter> set (map fst (fs @ [(n, s)])) = {}" "\<forall>n\<in>set names. plainKey n"
      using Cons.prems by auto
    ultimately show ?thesis using Cons.IH[of "fs @ [(n, s)]" "seen @ [n]"] Some by simp
  qed
qed

lemma remainingLoop_result:
  assumes "\<forall>(k, s)\<in>set m. qfield (require s) = k \<and> plainKey k"
      and "distinct (map fst m)"
      and "set (map fst m) \<inter> set (map fst fs) \<subseteq> set seen"
  shows "remainingLoop seen (map snd m) fs = fs @ filter (\<lambda>(k, s). k \<notin> set seen) m"
  using assms
proof (induction m arbitrary: fs)
  case Nil
  then show ?case by (simp add: remainingLoop_def)
next
  case (Cons a m)
  obtain k s where a: "a = (k, s)" by (cases a)
  have q: "qfield (require s) = k" "plainKey k" using Cons.prems(1) a by auto
  show ?case
  proof (cases "k \<in> set seen")
    case True
    have "remainingLoop seen (map snd (a # m)) fs = remainingLoop seen (map snd m) fs"
      using True q a by (simp add: remainingLoop_def)
    moreover have "\<forall>(k, s)\<in>set m. qfield (require s) = k \<and> plainKey k" "distinct (map fst m)"
      "set (map fst m) \<inter> set (map fst fs) \<subseteq> set seen"
      using Cons.prems by auto
    ultimately show ?thesis using Cons.IH[of fs] True a by simp
  next
    case False
    have nk: "k \<notin> set (map fst fs)" using Cons.prems(3) False a by auto
    have "remainingLoop seen (map snd (a # m)) fs = remainingLoop seen (map snd m) (fs @ [(k, s)])"
      using False q a by (simp add: remainingLoop_def objSet_new[OF q(2) nk])
    moreover have "\<forall>(k, s)\<in>set m. qfield (require s) = k \<and> plainKey k" "distinct (map fst m)"
      "set (map fst m) \<inter> set (map fst (fs @ [(k, s)])) \<subseteq> set seen"
      using Cons.prems a by auto
    ultimately show ?thesis using Cons.IH[of "fs @ [(k, s)]"] False a by simp
  qed
qed

lemma COMMON_NAMES_plain: "distinct COMMON_NAMES" "\<forall>n\<in>set COMMON_NAMES. plainKey n"
  by (simp_all add: COMMON_NAMES_def plainKey_def isArrayIndex_def isDigit_def)


subsection \<open>Walking the path\<close>

lemma buildSelectionSet_walk_error:
  "walkPath tm ty pre = Some (hops, cur) \<Longrightarrow> buildSelectionSet g tm cur rest req = Inl e \<Longrightarrow>
   buildSelectionSet g tm ty (pre @ rest) req = Inl e"
proof (induction pre arbitrary: ty hops)
  case Nil
  then show ?case by simp
next
  case (Cons h pre)
  then show ?case
    by (auto split: sum.splits option.splits prod.splits)
qed

lemma buildSelectionSet_walk_ok:
  "walkPath tm ty pre = Some (hops, cur) \<Longrightarrow>
   buildSelectionSet g tm cur rest req = Inr (ss, cols, ivs, specs, d) \<Longrightarrow>
   \<exists>ss' d'. buildSelectionSet g tm ty (pre @ rest) req =
      Inr (ss', cols, concat (map field_args hops) @ ivs, specs, d')"
proof (induction pre arbitrary: ty hops)
  case Nil
  then show ?case by simp
next
  case (Cons h pre)
  from Cons.prems(1) obtain field ft hops' where
    r: "resolveField tm ty h = Inr (field, ft)" and w: "walkPath tm ft pre = Some (hops', cur)"
    and hs: "hops = field # hops'"
    by (auto split: sum.splits option.splits prod.splits)
  from Cons.IH[OF w Cons.prems(2)] obtain ss' d' where
    "buildSelectionSet g tm ft (pre @ rest) req =
      Inr (ss', cols, concat (map field_args hops') @ ivs, specs, d')" by blast
  then show ?case using r hs by simp
qed

lemma buildSelections_ok:
  assumes "\<forall>f\<in>set fs. map_of m (field_name f) \<noteq> None \<or> field_name f = ''id''"
  shows "\<exists>sels. buildSelections m fs = Inr (sels, concat (map field_args fs)) \<and>
     map fieldNodeName sels = map field_name fs \<and>
     map fieldNodeArguments sels = map (\<lambda>f. map buildArgumentNode (field_args f)) fs"
  using assms
proof (induction fs)
  case Nil
  then show ?case by simp
next
  case (Cons f fs)
  then obtain sels where s: "buildSelections m fs = Inr (sels, concat (map field_args fs))"
    "map fieldNodeName sels = map field_name fs"
    "map fieldNodeArguments sels = map (\<lambda>f. map buildArgumentNode (field_args f)) fs"
    by auto
  from Cons.prems have "map_of m (field_name f) \<noteq> None \<or> field_name f = ''id''" by simp
  then show ?case using s by (cases "map_of m (field_name f)") auto
qed

lemma map_fst_filter_key: "map fst (filter (\<lambda>(k, s). P k) m) = filter P (map fst m)"
  by (induction m) auto

lemma targetFieldSpecs_None:
  assumes "\<forall>f\<in>set (type_fields ty). plainKey (field_name f)"
  defines "names \<equiv> map field_name (filter isFieldNodeScalarLike (type_fields ty))"
  shows "\<exists>m fieldSpecs. targetFieldSpecs g ty None = (m, filter isFieldNodeScalarLike (type_fields ty), fieldSpecs) \<and>
     map fst m = firstOccurrences names \<and>
     set fieldSpecs \<subseteq> set m \<and>
     map fst fieldSpecs = filter (\<lambda>n. n \<in> set names) COMMON_NAMES @
                          filter (\<lambda>n. n \<notin> set COMMON_NAMES) (firstOccurrences names)"
proof -
  let ?fs = "filter isFieldNodeScalarLike (type_fields ty)"
  let ?m = "scalarSpecsMap g ?fs"
  let ?seen = "filter (\<lambda>n. map_of ?m n \<noteq> None) COMMON_NAMES"
  let ?fs1 = "map (\<lambda>n. (n, the (map_of ?m n))) ?seen"
  have keys: "map fst ?m = firstOccurrences names" by (simp add: scalarSpecsMap_keys names_def)
  have dom: "\<And>n. map_of ?m n \<noteq> None \<longleftrightarrow> n \<in> set names"
    using keys by (metis map_of_eq_None_iff set_firstOccurrences set_map)
  have c: "commonNamesLoop ?m COMMON_NAMES ([], []) = (?fs1, ?seen)"
    using commonNamesLoop_result[OF COMMON_NAMES_plain(1) _ COMMON_NAMES_plain(2), of "[]" ?m "[]"]
    by simp
  have ent: "\<forall>(k, s)\<in>set ?m. qfield (require s) = k \<and> plainKey k"
  proof (clarify, rule conjI)
    fix k s assume ks: "(k, s) \<in> set ?m"
    from scalarSpecsMap_entries[OF ks] show "qfield (require s) = k" by simp
    from ks have "k \<in> set (map fst ?m)" by force
    then have "k \<in> set names" by (simp add: keys)
    then show "plainKey k" using assms(1) by (auto simp: names_def)
  qed
  have sub: "set (map fst ?m) \<inter> set (map fst ?fs1) \<subseteq> set ?seen" by (auto simp: comp_def)
  have r: "remainingLoop ?seen (map snd ?m) ?fs1 = ?fs1 @ filter (\<lambda>(k, s). k \<notin> set ?seen) ?m"
    by (rule remainingLoop_result[OF ent scalarSpecsMap_distinct sub])
  have t: "targetFieldSpecs g ty None = (?m, ?fs, ?fs1 @ filter (\<lambda>(k, s). k \<notin> set ?seen) ?m)"
    by (simp add: targetFieldSpecs_def Let_def c r del: not_None_eq)
  have k1: "map fst ?fs1 = filter (\<lambda>n. n \<in> set names) COMMON_NAMES"
    by (simp add: comp_def dom del: not_None_eq)
  have "map fst (filter (\<lambda>(k, s). k \<notin> set ?seen) ?m) = filter (\<lambda>k. k \<notin> set ?seen) (map fst ?m)"
    by (rule map_fst_filter_key)
  also have "\<dots> = filter (\<lambda>k. k \<notin> set COMMON_NAMES) (map fst ?m)"
    by (rule filter_cong) (simp_all add: dom keys del: not_None_eq)
  finally have k2: "map fst (filter (\<lambda>(k, s). k \<notin> set ?seen) ?m) =
      filter (\<lambda>n. n \<notin> set COMMON_NAMES) (firstOccurrences names)"
    by (simp add: keys)
  have s1: "set ?fs1 \<subseteq> set ?m"
  proof
    fix x assume "x \<in> set ?fs1"
    then obtain n where n: "x = (n, the (map_of ?m n))" "map_of ?m n \<noteq> None" by auto
    then show "x \<in> set ?m" by (auto dest: map_of_SomeD)
  qed
  have s2: "set (?fs1 @ filter (\<lambda>(k, s). k \<notin> set ?seen) ?m) \<subseteq> set ?m"
    using s1 by auto
  have k3: "map fst (?fs1 @ filter (\<lambda>(k, s). k \<notin> set ?seen) ?m) =
      filter (\<lambda>n. n \<in> set names) COMMON_NAMES @
      filter (\<lambda>n. n \<notin> set COMMON_NAMES) (firstOccurrences names)"
    by (simp only: map_append k1 k2)
  show ?thesis
    by (intro exI conjI) (rule t, rule keys, rule s2, rule k3)
qed

subsection \<open>The default field specs\<close>

lemma implicit_synthesis:
  assumes "walkPath typesMap type path = Some (hops, target)"
      and "\<forall>f\<in>set (type_fields target). plainKey (field_name f)"
  shows "\<exists>selectionSet selections fieldSpecs d.
     buildSelectionSet guessFieldTitle typesMap type path None =
       Inr (selectionSet, selections,
            concat (map field_args hops) @
            concat (map field_args (filter isFieldNodeScalarLike (type_fields target))),
            fieldSpecs, d) \<and>
     map fieldNodeName selections =
       map field_name (filter isFieldNodeScalarLike (type_fields target)) \<and>
     map fst fieldSpecs =
       filter (\<lambda>n. n \<in> field_name ` set (filter isFieldNodeScalarLike (type_fields target)))
         COMMON_NAMES @
       filter (\<lambda>n. n \<notin> set COMMON_NAMES)
         (firstOccurrences (map field_name (filter isFieldNodeScalarLike (type_fields target)))) \<and>
     (\<forall>(name, spec)\<in>set fieldSpecs.
        spec = \<lparr>title = guessFieldTitle name, require = QueryFieldSpec name None\<rparr>)"
proof -
  let ?fs = "filter isFieldNodeScalarLike (type_fields target)"
  from targetFieldSpecs_None[OF assms(2), of guessFieldTitle] obtain m fieldSpecs where
    t: "targetFieldSpecs guessFieldTitle target None = (m, ?fs, fieldSpecs)"
    and keys: "map fst m = firstOccurrences (map field_name ?fs)"
    and sub: "set fieldSpecs \<subseteq> set m"
    and ord: "map fst fieldSpecs = filter (\<lambda>n. n \<in> set (map field_name ?fs)) COMMON_NAMES @
                          filter (\<lambda>n. n \<notin> set COMMON_NAMES) (firstOccurrences (map field_name ?fs))"
    by blast
  have m: "m = scalarSpecsMap guessFieldTitle ?fs"
    using t by (simp add: targetFieldSpecs_def Let_def split_beta)
  have "\<forall>f\<in>set ?fs. map_of m (field_name f) \<noteq> None \<or> field_name f = ''id''"
  proof
    fix f assume "f \<in> set ?fs"
    then have "field_name f \<in> set (map fst m)" unfolding keys by simp
    then show "map_of m (field_name f) \<noteq> None \<or> field_name f = ''id''"
      by (simp add: map_of_eq_None_iff)
  qed
  from buildSelections_ok[OF this] obtain sels where
    b: "buildSelections m ?fs = Inr (sels, concat (map field_args ?fs))"
    and n: "map fieldNodeName sels = map field_name ?fs" by blast
  have "buildSelectionSet guessFieldTitle typesMap target [] None =
     Inr (sels, sels, concat (map field_args ?fs), fieldSpecs, None)"
    using t b by simp
  from buildSelectionSet_walk_ok[OF assms(1) this] obtain ss' d' where
    r: "buildSelectionSet guessFieldTitle typesMap type path None =
      Inr (ss', sels, concat (map field_args hops) @ concat (map field_args ?fs), fieldSpecs, d')"
    by auto
  have e: "\<forall>(name, spec)\<in>set fieldSpecs.
        spec = \<lparr>title = guessFieldTitle name, require = QueryFieldSpec name None\<rparr>"
    using sub scalarSpecsMap_entries[of _ _ guessFieldTitle ?fs] unfolding m by auto
  have ord': "map fst fieldSpecs =
       filter (\<lambda>n. n \<in> field_name ` set ?fs) COMMON_NAMES @
       filter (\<lambda>n. n \<notin> set COMMON_NAMES) (firstOccurrences (map field_name ?fs))"
    using ord by simp
  show ?thesis by (intro exI conjI) (rule r, rule n, rule ord', rule e)
qed

lemma isFieldNodeScalarLike_spec:
  "isFieldNodeScalarLike = (\<lambda>f. specScalarLike (field_type f))"
proof
  fix f
  show "isFieldNodeScalarLike f = specScalarLike (field_type f)"
    by (cases "field_type f" rule: specScalarLike.cases)
       (simp_all add: isFieldNodeScalarLike_def)
qed

lemma COMMON_NAMES_spec: "COMMON_NAMES = specPriorityNames"
  by (simp add: COMMON_NAMES_def specPriorityNames_def)

text \<open>
  Claim C6. With no field configuration, and the path resolving to a target type whose
  field names are plain keys (as the names of a GraphQL schema are), synthesis succeeds.
  The selections at the target type are exactly the fields whose type is \<^verbatim>\<open>SCALAR\<close> or
  \<^verbatim>\<open>NON_NULL\<close> of \<^verbatim>\<open>SCALAR\<close>, in declaration order. The keys of the field-spec mapping
  are the names id, name, first_name, last_name, title, display_name, gender, sex that
  are such fields of the type, in this fixed order, followed by the other such fields in
  declaration order; each spec requires the field it is keyed by.
\<close>

theorem implicit_field_specs_order:
  assumes "walkPath typesMap type path = Some (hops, target)"
      and "\<forall>f\<in>set (type_fields target). plainKey (field_name f)"
  shows "\<exists>selectionSet selections inputValues fieldSpecs d.
     buildSelectionSet guessFieldTitle typesMap type path None =
       Inr (selectionSet, selections, inputValues, fieldSpecs, d) \<and>
     map fieldNodeName selections =
       map field_name (filter (\<lambda>f. specScalarLike (field_type f)) (type_fields target)) \<and>
     map fst fieldSpecs =
       filter (\<lambda>n. n \<in> field_name `
                  set (filter (\<lambda>f. specScalarLike (field_type f)) (type_fields target)))
         specPriorityNames @
       filter (\<lambda>n. n \<notin> set specPriorityNames)
         (firstOccurrences
            (map field_name
               (filter (\<lambda>f. specScalarLike (field_type f)) (type_fields target)))) \<and>
     (\<forall>(name, spec)\<in>set fieldSpecs.
        spec = \<lparr>title = guessFieldTitle name, require = QueryFieldSpec name None\<rparr>)"
  using implicit_synthesis[OF assms, of guessFieldTitle]
  unfolding isFieldNodeScalarLike_spec COMMON_NAMES_spec
  by (elim exE conjE) (intro exI conjI, assumption+)

theorem implicit_field_specs_order_witness:
  "(\<exists>selectionSet selections inputValues fieldSpecs d.
      buildSelectionSet (\<lambda>n. n) Map.empty personType [] None =
        Inr (selectionSet, selections, inputValues, fieldSpecs, d) \<and>
      map fieldNodeName selections = [''email'', ''id'', ''display_name'', ''age''] \<and>
      map fst fieldSpecs = [''id'', ''display_name'', ''email'', ''age'']) \<and>
   (\<exists>selectionSet selections inputValues fieldSpecs d.
      buildSelectionSet (\<lambda>n. n) Map.empty memberType [] None =
        Inr (selectionSet, selections, inputValues, fieldSpecs, d) \<and>
      map fieldNodeName selections = [''email'', ''id'', ''display_name'', ''age''] \<and>
      map fst fieldSpecs = [''id'', ''display_name'', ''email'', ''age''])"
proof -
  have w: "walkPath Map.empty personType [] = Some ([], personType)"
    "walkPath Map.empty memberType [] = Some ([], memberType)" by simp_all
  have a: "\<forall>f\<in>set (type_fields personType). plainKey (field_name f)"
    "\<forall>f\<in>set (type_fields memberType). plainKey (field_name f)"
    by (simp_all add: personType_def memberType_def plainKey_def isArrayIndex_def isDigit_def)
  have f: "map field_name (filter (\<lambda>f. specScalarLike (field_type f)) (type_fields personType)) =
      [''email'', ''id'', ''display_name'', ''age'']"
    "map field_name (filter (\<lambda>f. specScalarLike (field_type f)) (type_fields memberType)) =
      [''email'', ''id'', ''display_name'', ''age'']"
    by (simp_all add: personType_def memberType_def)
  have i: "field_name ` set (filter (\<lambda>f. specScalarLike (field_type f)) (type_fields personType)) =
      set [''email'', ''id'', ''display_name'', ''age'']"
    "field_name ` set (filter (\<lambda>f. specScalarLike (field_type f)) (type_fields memberType)) =
      set [''email'', ''id'', ''display_name'', ''age'']"
    by (simp_all only: set_map[symmetric] f)
  have o: "filter (\<lambda>n. n \<in> set [''email'', ''id'', ''display_name'', ''age'']) specPriorityNames @
       filter (\<lambda>n. n \<notin> set specPriorityNames)
         (firstOccurrences [''email'', ''id'', ''display_name'', ''age'']) =
       [''id'', ''display_name'', ''email'', ''age'']"
    by (simp add: specPriorityNames_def)
  have p: "\<exists>selectionSet selections inputValues fieldSpecs d.
      buildSelectionSet (\<lambda>n. n) Map.empty personType [] None =
        Inr (selectionSet, selections, inputValues, fieldSpecs, d) \<and>
      map fieldNodeName selections = [''email'', ''id'', ''display_name'', ''age''] \<and>
      map fst fieldSpecs = [''id'', ''display_name'', ''email'', ''age'']"
    using implicit_field_specs_order[OF w(1) a(1), of "\<lambda>n. n", unfolded f i o]
    by (elim exE conjE) (intro exI conjI, assumption+)
  have m: "\<exists>selectionSet selections inputValues fieldSpecs d.
      buildSelectionSet (\<lambda>n. n) Map.empty memberType [] None =
        Inr (selectionSet, selections, inputValues, fieldSpecs, d) \<and>
      map fieldNodeName selections = [''email'', ''id'', ''display_name'', ''age''] \<and>
      map fst fieldSpecs = [''id'', ''display_name'', ''email'', ''age'']"
    using implicit_field_specs_order[OF w(2) a(2), of "\<lambda>n. n", unfolded f i o]
    by (elim exE conjE) (intro exI conjI, assumption+)
  from p m show ?thesis by (rule conjI)
qed

subsection \<open>Hops that cannot be traversed\<close>

lemma resolveType_indexed:
  "indexedName ref = Some n \<Longrightarrow>
   resolveType tm msg ref = (case tm n of None \<Rightarrow> Inl (InvariantViolation msg) | Some t \<Rightarrow> Inr t)"
  by (induction ref) simp_all

lemma resolveType_scalar:
  "namedTypeOf ref = SCALAR n \<Longrightarrow> resolveType tm msg ref = Inl (InvariantViolation msg)"
  by (induction ref) simp_all

lemma exampleTypesMap_simps:
  "exampleTypesMap ''Query'' = Some queryType"
  "exampleTypesMap ''PatientConnection'' = Some patientConnectionType"
  "exampleTypesMap ''PatientEdge'' = Some patientEdgeType"
  "exampleTypesMap ''Patient'' = Some patientType"
  "exampleTypesMap ''Status'' = Some statusType"
  by (simp_all add: exampleTypesMap_def exampleSchema_def buildTypesMap_def queryType_def
      patientConnectionType_def patientEdgeType_def patientType_def statusType_def)

lemma example_resolve:
  "resolveField exampleTypesMap queryType ''patients'' = Inr (patientsField, patientConnectionType)"
  "resolveField exampleTypesMap patientConnectionType ''edges'' = Inr (edgesField, patientEdgeType)"
  "resolveField exampleTypesMap patientEdgeType ''node'' = Inr (nodeField, patientType)"
  by (simp_all add: resolveField_def exampleTypesMap_simps)
     (simp_all add: queryType_def patientConnectionType_def patientEdgeType_def patientType_def
        patientsField_def edgesField_def nodeField_def exampleTypesMap_simps)

lemma example_walk:
  "walkPath exampleTypesMap queryType [''patients'', ''edges'', ''node''] =
     Some ([patientsField, edgesField, nodeField], patientType)"
  by (simp add: example_resolve)


lemma buildTypesMap_example: "buildTypesMap (schema_types exampleSchema) = exampleTypesMap"
  by (simp add: exampleTypesMap_def)

lemma hop_config_errors:
  assumes "walkPath typesMap type pre = Some (hops, current)"
  shows "(find (\<lambda>f. field_name f = hop) (type_fields current) = None \<longrightarrow>
       buildSelectionSet g typesMap type (pre @ hop # post) req =
         Inl (ConfigError (noFieldMessage (type_name current) hop))) \<and>
     (\<forall>field n t.
        find (\<lambda>f. field_name f = hop) (type_fields current) = Some field \<and>
        indexedName (field_type field) = Some n \<and> typesMap n = Some t \<and>
        type_kind t \<noteq> K_OBJECT \<longrightarrow>
          buildSelectionSet g typesMap type (pre @ hop # post) req =
            Inl (ConfigError ''Expected object type for nextType.kind''))"
proof (intro conjI allI impI)
  assume "find (\<lambda>f. field_name f = hop) (type_fields current) = None"
  then have "buildSelectionSet g typesMap current (hop # post) req =
      Inl (ConfigError (noFieldMessage (type_name current) hop))"
    by (simp add: resolveField_def)
  from buildSelectionSet_walk_error[OF assms this]
  show "buildSelectionSet g typesMap type (pre @ hop # post) req =
         Inl (ConfigError (noFieldMessage (type_name current) hop))" .
next
  fix field n t
  assume a: "find (\<lambda>f. field_name f = hop) (type_fields current) = Some field \<and>
        indexedName (field_type field) = Some n \<and> typesMap n = Some t \<and>
        type_kind t \<noteq> K_OBJECT"
  then have "resolveField typesMap current hop =
      Inl (ConfigError ''Expected object type for nextType.kind'')"
    by (simp add: resolveField_def resolveType_indexed[of _ n])
  then have "buildSelectionSet g typesMap current (hop # post) req =
      Inl (ConfigError ''Expected object type for nextType.kind'')"
    by simp
  from buildSelectionSet_walk_error[OF assms this]
  show "buildSelectionSet g typesMap type (pre @ hop # post) req =
         Inl (ConfigError ''Expected object type for nextType.kind'')" .
qed

lemma example_sibling_hops:
  "buildSelectionSet (\<lambda>n. n) exampleTypesMap queryType
     [''patients'', ''edges'', ''node'', ''doctor''] None =
     Inl (ConfigError (noFieldMessage ''Patient'' ''doctor''))"
  "buildSelectionSet (\<lambda>n. n) exampleTypesMap queryType
     [''patients'', ''edges'', ''node'', ''status''] None =
     Inl (ConfigError ''Expected object type for nextType.kind'')"
proof -
  have a: "find (\<lambda>f. field_name f = ''doctor'') (type_fields patientType) = None"
    by (simp add: patientType_def)
  have b: "find (\<lambda>f. field_name f = ''status'') (type_fields patientType) =
      Some \<lparr>field_name = ''status'', field_description = None, field_args = [],
          field_type = ENUM ''Status''\<rparr>"
    "type_kind statusType \<noteq> K_OBJECT"
    by (simp_all add: patientType_def statusType_def)
  have n: "type_name patientType = ''Patient''" by (simp add: patientType_def)
  from hop_config_errors[OF example_walk, of "''doctor''" "\<lambda>n. n" "[]" None] a
  show "buildSelectionSet (\<lambda>n. n) exampleTypesMap queryType
     [''patients'', ''edges'', ''node'', ''doctor''] None =
     Inl (ConfigError (noFieldMessage ''Patient'' ''doctor''))"
    unfolding n by simp
  from hop_config_errors[OF example_walk, of "''status''" "\<lambda>n. n" "[]" None] b
    exampleTypesMap_simps(5)
  show "buildSelectionSet (\<lambda>n. n) exampleTypesMap queryType
     [''patients'', ''edges'', ''node'', ''status''] None =
     Inl (ConfigError ''Expected object type for nextType.kind'')"
    by (elim conjE allE[where x = "\<lparr>field_name = ''status'', field_description = None,
          field_args = [], field_type = ENUM ''Status''\<rparr>"])
       (elim allE[where x = "''Status''"] allE[where x = statusType], simp)
qed

text \<open>
  Claim C5. A hop whose name is absent from the fields of the current object type, or
  whose field does not resolve through its \<^verbatim>\<open>NON_NULL\<close> and \<^verbatim>\<open>LIST\<close> wrappers to an
  \<^verbatim>\<open>OBJECT\<close> type, is to raise a \<open>ConfigError\<close>, a hop that points at a \<^verbatim>\<open>SCALAR\<close>
  field included. On the example schema, after the hops patients, edges, node, synthesis
  ends in a \<open>ConfigError\<close> for the absent hop \<^verbatim>\<open>doctor\<close> and for the hop \<^verbatim>\<open>status\<close> to
  an \<^verbatim>\<open>ENUM\<close>; for the hop \<^verbatim>\<open>name\<close> to a \<^verbatim>\<open>SCALAR\<close> it ends in the invariant violation
  "No type for field ... found" instead: \<open>resolveType\<close> leaves \<^verbatim>\<open>nextType\<close> undefined for
  a \<^verbatim>\<open>SCALAR\<close>, and its closing invariant fires before the check that raises the
  \<open>ConfigError\<close>.
\<close>

theorem scalar_hop_invariant_violation:
  "buildQueryAST (\<lambda>n. n) exampleSchema [''patients'', ''edges'', ''node'', ''name''] None =
     Inl (InvariantViolation (noTypeMessage ''Patient'' ''name'')) \<and>
   buildQueryAST (\<lambda>n. n) exampleSchema [''patients'', ''edges'', ''node'', ''status''] None =
     Inl (ConfigError ''Expected object type for nextType.kind'') \<and>
   buildQueryAST (\<lambda>n. n) exampleSchema [''patients'', ''edges'', ''node'', ''doctor''] None =
     Inl (ConfigError (noFieldMessage ''Patient'' ''doctor''))"
proof -
  have r: "resolveField exampleTypesMap patientType ''name'' =
      Inl (InvariantViolation (noTypeMessage ''Patient'' ''name''))"
    by (simp add: resolveField_def patientType_def)
  have k: "type_kind queryType = K_OBJECT" "queryType_name exampleSchema = ''Query''"
    by (simp_all add: queryType_def exampleSchema_def)
  have s: "buildSelectionSet (\<lambda>n. n) exampleTypesMap queryType
     [''patients'', ''edges'', ''node'', ''name''] None =
     Inl (InvariantViolation (noTypeMessage ''Patient'' ''name''))"
    by (simp add: example_resolve r)
  show ?thesis
    by (simp add: buildQueryAST_def buildTypesMap_example exampleTypesMap_simps k s
        example_sibling_hops del: buildSelectionSet.simps)
qed

subsection \<open>An explicit configuration\<close>

lemma requestedSpecs_fold_dom:
  "dom (map_of (foldl (\<lambda>fieldSpecsMap (name, fieldSpec).
              mapSet (qfield (require fieldSpec)) fieldSpec fieldSpecsMap) m0 requested)) =
   dom (map_of m0) \<union> (\<lambda>(name, spec). qfield (require spec)) ` set requested"
proof (induction requested arbitrary: m0)
  case Nil
  then show ?case by simp
next
  case (Cons a requested)
  let ?F = "\<lambda>fieldSpecsMap (name, fieldSpec).
              mapSet (qfield (require fieldSpec)) fieldSpec fieldSpecsMap"
  obtain name spec where a: "a = (name, spec)" by (cases a)
  have "foldl ?F m0 (a # requested) = foldl ?F (mapSet (qfield (require spec)) spec m0) requested"
    by (simp add: a)
  then have "dom (map_of (foldl ?F m0 (a # requested))) =
      dom (map_of (mapSet (qfield (require spec)) spec m0)) \<union>
      (\<lambda>(name, spec). qfield (require spec)) ` set requested"
    by (simp only: Cons.IH)
  also have "dom (map_of (mapSet (qfield (require spec)) spec m0)) =
      insert (qfield (require spec)) (dom (map_of m0))"
    by (simp only: mapSet_map_of dom_fun_upd option.distinct if_False)
  finally show ?case by (simp add: a)
qed

lemma requestedSpecsMap_dom:
  "map_of (requestedSpecsMap requested) k \<noteq> None \<longleftrightarrow>
   k \<in> (\<lambda>(name, spec). qfield (require spec)) ` set requested"
proof -
  have "dom (map_of (requestedSpecsMap requested)) =
      (\<lambda>(name, spec). qfield (require spec)) ` set requested"
    unfolding requestedSpecsMap_def by (simp add: requestedSpecs_fold_dom)
  then show ?thesis by (auto simp: dom_def)
qed

lemma targetFieldSpecs_Some:
  "targetFieldSpecs g ty (Some requested) =
     (requestedSpecsMap requested, selectedFields ty (Some requested), requested)"
proof -
  have "filter (\<lambda>field. map_of (requestedSpecsMap requested) (field_name field) \<noteq> None \<or>
                  field_name field = ''id'') (type_fields ty) =
        selectedFields ty (Some requested)"
    unfolding selectedFields_def option.case
    by (rule filter_cong) (simp_all only: requestedSpecsMap_dom)
  then show ?thesis by (simp add: targetFieldSpecs_def Let_def del: not_None_eq)
qed

lemma targetFieldSpecs_intros:
  "fst (snd (targetFieldSpecs g ty req)) = selectedFields ty req"
proof (cases req)
  case None
  then show ?thesis by (simp add: targetFieldSpecs_def selectedFields_def Let_def split_beta)
next
  case (Some requested)
  then show ?thesis by (simp add: targetFieldSpecs_Some)
qed

text \<open>
  Claim C7, as amended. With a field configuration, the path resolving to a target type
  that has a field \<^verbatim>\<open>id\<close>, synthesis succeeds; the selections at the target type are
  the fields that an entry requires together with \<^verbatim>\<open>id\<close>, in declaration order, so
  \<^verbatim>\<open>id\<close> is selected whether requested or not; the field-spec mapping returned is the
  requested mapping itself.
\<close>

theorem explicit_config_selects_id:
  assumes "walkPath typesMap type path = Some (hops, target)"
      and "''id'' \<in> field_name ` set (type_fields target)"
  shows "\<exists>selectionSet selections inputValues d.
     buildSelectionSet g typesMap type path (Some requested) =
       Inr (selectionSet, selections, inputValues, requested, d) \<and>
     map fieldNodeName selections = map field_name (selectedFields target (Some requested)) \<and>
     ''id'' \<in> set (map fieldNodeName selections)"
proof -
  let ?fs = "selectedFields target (Some requested)"
  let ?m = "requestedSpecsMap requested"
  have "\<forall>f\<in>set ?fs. map_of ?m (field_name f) \<noteq> None \<or> field_name f = ''id''"
    by (auto simp: selectedFields_def requestedSpecsMap_dom simp del: not_None_eq)
  from buildSelections_ok[OF this] obtain sels where
    b: "buildSelections ?m ?fs = Inr (sels, concat (map field_args ?fs))"
    and n: "map fieldNodeName sels = map field_name ?fs" by blast
  have "buildSelectionSet g typesMap target [] (Some requested) =
     Inr (sels, sels, concat (map field_args ?fs), requested, None)"
    using b by (simp add: targetFieldSpecs_Some)
  from buildSelectionSet_walk_ok[OF assms(1) this] obtain ss' d' where
    r: "buildSelectionSet g typesMap type path (Some requested) =
      Inr (ss', sels, concat (map field_args hops) @ concat (map field_args ?fs), requested, d')"
    by auto
  have "''id'' \<in> set (map field_name ?fs)"
    using assms(2) by (auto simp: selectedFields_def)
  then have i: "''id'' \<in> set (map fieldNodeName sels)" unfolding n .
  show ?thesis by (intro exI conjI) (rule r, rule n, rule i)
qed

theorem explicit_config_selects_id_witness:
  "\<exists>selectionSet selections inputValues d.
     buildSelectionSet (\<lambda>n. n) Map.empty personType [] (Some emailConfig) =
       Inr (selectionSet, selections, inputValues, emailConfig, d) \<and>
     map fieldNodeName selections = [''email'', ''id'']"
proof -
  have w: "walkPath Map.empty personType [] = Some ([], personType)" by simp
  have a: "''id'' \<in> field_name ` set (type_fields personType)"
    by (simp add: personType_def)
  have f: "map field_name (selectedFields personType (Some emailConfig)) = [''email'', ''id'']"
    by (simp add: personType_def selectedFields_def emailConfig_def)
  from explicit_config_selects_id[OF w a, of "\<lambda>n. n" emailConfig, unfolded f]
  show ?thesis by (elim exE conjE) (intro exI conjI, assumption+)
qed

text \<open>
  As stated, C7 fails in its second half: for a configuration that does not request
  \<^verbatim>\<open>id\<close>, the mapping returned has neither a key \<^verbatim>\<open>id\<close> nor a spec that requires
  \<^verbatim>\<open>id\<close>, although \<^verbatim>\<open>id\<close> is selected.
\<close>

theorem id_spec_not_merged_counterexample:
  "buildSelectionSet (\<lambda>n. n) Map.empty personType [] (Some emailConfig) =
     Inr ([Field ''email'' [] [], Field ''id'' [] []], [Field ''email'' [] [], Field ''id'' [] []],
          [], emailConfig, None) \<and>
   map fst emailConfig = [''contact''] \<and>
   map (\<lambda>(name, spec). qfield (require spec)) emailConfig = [''email'']"
  by (simp add: targetFieldSpecs_Some)
     (simp add: personType_def emailConfig_def selectedFields_def requestedSpecsMap_def
        makeSelectionSetFromSpec_def)

subsection \<open>Variable definitions\<close>

lemma buildSelections_inputs:
  "buildSelections m fs = Inr (sels, ivs) \<Longrightarrow> ivs = concat (map field_args fs)"
proof (induction fs arbitrary: sels ivs)
  case Nil
  then show ?case by simp
next
  case (Cons f fs)
  then show ?case
    by (auto split: sum.splits option.splits if_splits prod.splits)
qed

lemma buildSelectionSet_inputs:
  "buildSelectionSet g tm ty path req = Inr (ss, cols, ivs, specs, d) \<Longrightarrow>
   \<exists>hops target. walkPath tm ty path = Some (hops, target) \<and>
     ivs = concat (map field_args hops) @ concat (map field_args (selectedFields target req))"
proof (induction path arbitrary: ty ss cols ivs specs d)
  case Nil
  obtain m fs sp where t: "targetFieldSpecs g ty req = (m, fs, sp)"
    by (cases "targetFieldSpecs g ty req") auto
  then have fs: "fs = selectedFields ty req" using targetFieldSpecs_intros[of g ty req] by simp
  from Nil t obtain sels where "buildSelections m fs = Inr (sels, ivs)"
    by (auto split: sum.splits prod.splits)
  from buildSelections_inputs[OF this] show ?case by (simp add: fs)
next
  case (Cons h path)
  from Cons.prems obtain field ft ss' cols' ivs' specs' d' where
    r: "resolveField tm ty h = Inr (field, ft)"
    and b: "buildSelectionSet g tm ft path req = Inr (ss', cols', ivs', specs', d')"
    and i: "ivs = field_args field @ ivs'"
    by (auto split: sum.splits prod.splits)
  from Cons.IH[OF b] obtain hops target where
    "walkPath tm ft path = Some (hops, target)"
    "ivs' = concat (map field_args hops) @ concat (map field_args (selectedFields target req))"
    by blast
  then show ?case using r i by simp
qed

lemma buildVariableDefinitions_ok:
  "buildVariableDefinitions ivs = Inr defs \<Longrightarrow>
   map variableName defs = map arg_name ivs \<and>
   map (\<lambda>d. Inr (variableType d)) defs = map (\<lambda>a. buildTypeNode (arg_type a)) ivs"
proof (induction ivs arbitrary: defs)
  case Nil
  then show ?case by simp
next
  case (Cons a ivs)
  then show ?case
    by (auto simp: buildVariableDefinitionNode_def split: sum.splits)
qed

text \<open>
  Claim C8. When synthesis succeeds, the path resolves from the root type, and the
  variable definitions of the operation are, one for one and in this order, the
  arguments of the traversed hops in path order followed by the arguments of the fields
  selected at the target type: each has the name of its argument and the type node of
  its argument's type. Nothing is removed for a repeated name, and there is no definition
  when there is no argument.
\<close>

theorem variableDefinitions_in_order:
  assumes "buildQueryAST g schema path req = Inr q"
  shows "\<exists>rootType hops target.
     buildTypesMap (schema_types schema) (queryType_name schema) = Some rootType \<and>
     walkPath (buildTypesMap (schema_types schema)) rootType path = Some (hops, target) \<and>
     map variableName (q_variableDefinitions q) =
       map arg_name (concat (map field_args hops) @
                     concat (map field_args (selectedFields target req))) \<and>
     map (\<lambda>d. Inr (variableType d)) (q_variableDefinitions q) =
       map (\<lambda>a. buildTypeNode (arg_type a))
         (concat (map field_args hops) @ concat (map field_args (selectedFields target req)))"
proof -
  let ?tm = "buildTypesMap (schema_types schema)"
  from assms obtain rootType where root: "?tm (queryType_name schema) = Some rootType"
    by (auto simp: buildQueryAST_def Let_def split: option.splits)
  from assms root obtain ss cols ivs specs d where
    b: "buildSelectionSet g ?tm rootType path req = Inr (ss, cols, ivs, specs, d)"
    by (auto simp: buildQueryAST_def Let_def split: if_splits sum.splits)
  from assms root b obtain defs where
    v: "buildVariableDefinitions ivs = Inr defs" and q: "q_variableDefinitions q = defs"
    by (auto simp: buildQueryAST_def Let_def split: if_splits sum.splits)
  from buildSelectionSet_inputs[OF b] obtain hops target where
    w: "walkPath ?tm rootType path = Some (hops, target)"
    and i: "ivs = concat (map field_args hops) @ concat (map field_args (selectedFields target req))"
    by blast
  from buildVariableDefinitions_ok[OF v] show ?thesis
    using root w unfolding q i by blast
qed

theorem variableDefinitions_in_order_witness:
  "\<exists>q. buildQueryAST (\<lambda>n. n) exampleSchema [''patients'', ''edges'', ''node''] None = Inr q \<and>
       map variableName (q_variableDefinitions q) = [''search'', ''limit'', ''limit'', ''limit''] \<and>
       map variableType (q_variableDefinitions q) =
         [NamedType ''String'', NamedType ''Int'', NamedType ''Int'', NamedType ''Int'']"
proof -
  let ?path = "[''patients'', ''edges'', ''node'']"
  have nonidx: "\<forall>f\<in>set (type_fields patientType). plainKey (field_name f)"
    by (simp add: patientType_def plainKey_def isArrayIndex_def isDigit_def)
  have sel: "map field_args (selectedFields patientType None) = [[], [], [limitArg]]"
    by (simp add: selectedFields_def patientType_def isFieldNodeScalarLike_def)
  have sel': "map field_args (filter isFieldNodeScalarLike (type_fields patientType)) = [[], [], [limitArg]]"
    using sel by (simp add: selectedFields_def)
  have hops: "map field_args [patientsField, edgesField, nodeField] = [[searchArg, limitArg], [limitArg], []]"
    by (simp add: patientsField_def edgesField_def nodeField_def)
  from implicit_synthesis[OF example_walk nonidx, of "\<lambda>n. n"] obtain ss sels specs d where
    b: "buildSelectionSet (\<lambda>n. n) exampleTypesMap queryType ?path None =
      Inr (ss, sels, [searchArg, limitArg, limitArg, limitArg], specs, d)"
    unfolding sel' hops by auto
  have v: "buildVariableDefinitions [searchArg, limitArg, limitArg, limitArg] =
      Inr [VariableDefinition ''search'' (NamedType ''String''),
           VariableDefinition ''limit'' (NamedType ''Int''),
           VariableDefinition ''limit'' (NamedType ''Int''),
           VariableDefinition ''limit'' (NamedType ''Int'')]"
    by (simp add: buildVariableDefinitionNode_def searchArg_def limitArg_def)
  have k: "type_kind queryType = K_OBJECT" "queryType_name exampleSchema = ''Query''"
    by (simp_all add: queryType_def exampleSchema_def)
  obtain q where q: "buildQueryAST (\<lambda>n. n) exampleSchema ?path None = Inr q"
    by (simp add: buildQueryAST_def buildTypesMap_example exampleTypesMap_simps k b v
        del: buildSelectionSet.simps buildVariableDefinitions.simps)
  from variableDefinitions_in_order[OF q] obtain rootType hops target where
    r: "buildTypesMap (schema_types exampleSchema) (queryType_name exampleSchema) = Some rootType"
    and w: "walkPath (buildTypesMap (schema_types exampleSchema)) rootType ?path = Some (hops, target)"
    and n: "map variableName (q_variableDefinitions q) =
       map arg_name (concat (map field_args hops) @
                     concat (map field_args (selectedFields target None)))"
    and t: "map (\<lambda>d. Inr (variableType d)) (q_variableDefinitions q) =
       map (\<lambda>a. buildTypeNode (arg_type a))
         (concat (map field_args hops) @ concat (map field_args (selectedFields target None)))"
    by (elim exE conjE)
  from r have root: "rootType = queryType"
    by (simp add: buildTypesMap_example k exampleTypesMap_simps)
  from w have ht: "hops = [patientsField, edgesField, nodeField]" "target = patientType"
    unfolding root buildTypesMap_example example_walk by simp_all
  have n': "map variableName (q_variableDefinitions q) = [''search'', ''limit'', ''limit'', ''limit'']"
    unfolding n ht hops sel by (simp add: searchArg_def limitArg_def)
  have "map (\<lambda>d. Inr (variableType d) :: error + typeNode) (q_variableDefinitions q) =
      map Inr [NamedType ''String'', NamedType ''Int'', NamedType ''Int'', NamedType ''Int'']"
    unfolding t ht hops sel by (simp add: searchArg_def limitArg_def)
  then have "map (Inr :: typeNode \<Rightarrow> error + typeNode) (map variableType (q_variableDefinitions q)) =
      map Inr [NamedType ''String'', NamedType ''Int'', NamedType ''Int'', NamedType ''Int'']"
    by (simp add: comp_def)
  then have t': "map variableType (q_variableDefinitions q) =
      [NamedType ''String'', NamedType ''Int'', NamedType ''Int'', NamedType ''Int'']"
    by (simp only: inj_map_eq_map[OF inj_Inr])
  show ?thesis by (intro exI conjI) (rule q, rule n', rule t')
qed

end
